theory Spec2Isabelle
  imports Complex_Main "HOL-Library.Multiset"
begin

section \<open>Python values: exceptions as results\<close>

text \<open>
  Every Python exception the modelled functions can raise is a value of \<open>py_error\<close>;
  a function that may raise returns \<open>py_error + 'a\<close> with \<open>Inl\<close> for the raise.
\<close>

datatype py_error = IndexError | KeyError | ZeroDivisionError | FileNotFoundError | DecodeError

definition bindE :: "py_error + 'a \<Rightarrow> ('a \<Rightarrow> py_error + 'b) \<Rightarrow> py_error + 'b" where
  "bindE r f = (case r of Inl e \<Rightarrow> Inl e | Inr v \<Rightarrow> f v)"

text \<open>A comprehension whose element expression may raise: the first raise wins.\<close>

fun mapE :: "('a \<Rightarrow> py_error + 'b) \<Rightarrow> 'a list \<Rightarrow> py_error + 'b list" where
  "mapE f [] = Inr []"
| "mapE f (x # xs) =
     (case f x of
        Inl e \<Rightarrow> Inl e
      | Inr y \<Rightarrow> (case mapE f xs of Inl e \<Rightarrow> Inl e | Inr ys \<Rightarrow> Inr (y # ys)))"

text \<open>\<open>xs[i]\<close> for a non-negative index.\<close>

definition index :: "'a list \<Rightarrow> nat \<Rightarrow> py_error + 'a" where
  "index xs i = (if i < length xs then Inr (xs ! i) else Inl IndexError)"

section \<open>functions.py: the broad colour palette\<close>

type_synonym rgb = "int \<times> int \<times> int"

text \<open>\<open>BROAD_COLORS\<close> and \<open>COLOR_WARMTH\<close>: dictionaries in insertion order.\<close>

definition BROAD_COLORS :: "(string \<times> rgb) list" where
  "BROAD_COLORS =
     [(''Red'', (220, 20, 60)),
      (''Orange'', (255, 165, 0)),
      (''Yellow'', (255, 255, 0)),
      (''Green'', (34, 139, 34)),
      (''Blue'', (30, 144, 255)),
      (''White'', (255, 255, 255)),
      (''Black'', (0, 0, 0))]"

definition COLOR_WARMTH :: "(string \<times> int) list" where
  "COLOR_WARMTH =
     [(''Red'', 1),
      (''Orange'', 1),
      (''Yellow'', 1),
      (''Green'', -1),
      (''Blue'', -1),
      (''White'', 0),
      (''Black'', 0)]"

text \<open>\<open>sum((rgb[i] - color_rgb[i]) ** 2 for i in range(3))\<close>\<close>

fun sq_sum :: "rgb \<Rightarrow> rgb \<Rightarrow> int" where
  "sq_sum (r, g, b) (cr, cg, cb) = (r - cr)\<^sup>2 + (g - cg)\<^sup>2 + (b - cb)\<^sup>2"

text \<open>\<open>np.sqrt(...)\<close>, over the reals.\<close>

definition distance :: "rgb \<Rightarrow> rgb \<Rightarrow> real" where
  "distance rgb color_rgb = sqrt (real_of_int (sq_sum rgb color_rgb))"

text \<open>
  The loop of \<open>closest_broad_color\<close> over \<open>BROAD_COLORS.items()\<close>. Its state is
  \<open>(min_distance, closest_color)\<close>; \<open>None\<close> stands for \<open>float("inf")\<close> in the first
  component and for Python's \<open>None\<close> in the second.
\<close>

fun below :: "real \<Rightarrow> real option \<Rightarrow> bool" where
  "below d None = True"
| "below d (Some m) = (d < m)"

fun closest_loop ::
  "rgb \<Rightarrow> (string \<times> rgb) list \<Rightarrow> real option \<times> string option \<Rightarrow> real option \<times> string option"
where
  "closest_loop rgb [] st = st"
| "closest_loop rgb ((color_name, color_rgb) # rest) (min_distance, closest_color) =
     (if below (distance rgb color_rgb) min_distance
      then closest_loop rgb rest (Some (distance rgb color_rgb), Some color_name)
      else closest_loop rgb rest (min_distance, closest_color))"

definition closest_broad_color :: "rgb \<Rightarrow> string option" where
  "closest_broad_color rgb = snd (closest_loop rgb BROAD_COLORS (None, None))"

section \<open>functions.py: minimalism and emotion\<close>

text \<open>
  \<open>collections.Counter\<close> over an iterable: a dictionary in insertion order, so a list
  of (key, count) pairs in order of first occurrence.
\<close>

fun counter_add :: "'k \<Rightarrow> ('k \<times> nat) list \<Rightarrow> ('k \<times> nat) list" where
  "counter_add k [] = [(k, 1)]"
| "counter_add k ((k', n) # rest) =
     (if k = k' then (k', Suc n) # rest else (k', n) # counter_add k rest)"

definition Counter :: "'k list \<Rightarrow> ('k \<times> nat) list" where
  "Counter xs = foldl (\<lambda>c x. counter_add x c) [] xs"

text \<open>
  \<open>Counter.most_common(n)\<close>: the \<open>n\<close> entries of greatest count, entries of equal
  count in insertion order (a stable sort by descending count, then a slice).
\<close>

definition most_common :: "nat \<Rightarrow> ('k \<times> nat) list \<Rightarrow> ('k \<times> nat) list" where
  "most_common n c = take n (sort_key (\<lambda>(k, v). - int v) c)"

definition describe_logo_colors :: "rgb list \<Rightarrow> bool" where
  "describe_logo_colors rgb_colors =
     (let color_counts = Counter (map closest_broad_color rgb_colors);
          color_groups = most_common 8 color_counts
      in if length color_groups \<le> 2 then True else False)"

text \<open>\<open>COLOR_WARMTH[color]\<close>: a missing key, \<open>None\<close> included, raises \<open>KeyError\<close>.\<close>

definition warmth_lookup :: "string option \<Rightarrow> py_error + int" where
  "warmth_lookup color =
     (case color of
        None \<Rightarrow> Inl KeyError
      | Some name \<Rightarrow> (case map_of COLOR_WARMTH name of None \<Rightarrow> Inl KeyError | Some w \<Rightarrow> Inr w))"

text \<open>
  \<open>analyze_emotion\<close>. The clustering of \<open>extract_main_colors\<close> (OpenCV and scikit-learn)
  is a parameter: it returns the list of cluster centres or raises. The warmth score is
  a quotient of integers, taken over the reals.
\<close>

definition analyze_emotion :: "('p \<Rightarrow> py_error + rgb list) \<Rightarrow> 'p \<Rightarrow> py_error + string" where
  "analyze_emotion extract_main_colors image_path =
     bindE (extract_main_colors image_path) (\<lambda>rgb_list.
       let color_counts = Counter (map closest_broad_color rgb_list);
           color_groups = most_common 8 color_counts
       in bindE (mapE (\<lambda>(color, cnt). bindE (warmth_lookup color) (\<lambda>w. Inr (w * int cnt)))
                   color_groups) (\<lambda>terms.
            if length color_groups = 0 then Inl ZeroDivisionError
            else
              let warmth_score = real_of_int (sum_list terms) / real (length color_groups)
              in if warmth_score > 0.5 then Inr ''Energetic & Passionate''
                 else if warmth_score > 0 then Inr ''Warm & Friendly''
                 else if warmth_score < - 0.5 then Inr ''Cool & Professional''
                 else if warmth_score < 0 then Inr ''Calm & Trustworthy''
                 else Inr ''Balanced & Neutral''))"

text \<open>
  The classifier in the words of the specification: each bucket present counts its
  clusters weighted by the bucket's warmth, the total is divided by the number of distinct
  buckets, and the score is mapped to a label by the threshold bands.
\<close>

definition warmth_weight :: "string \<Rightarrow> int" where
  "warmth_weight name =
     (if name \<in> {''Red'', ''Orange'', ''Yellow''} then 1
      else if name \<in> {''Green'', ''Blue''} then - 1
      else 0)"

definition spec_warmth_score :: "string list \<Rightarrow> real" where
  "spec_warmth_score buckets =
     real_of_int (\<Sum>b \<in> set buckets. warmth_weight b * int (count_list buckets b))
       / real (card (set buckets))"

definition spec_emotion_label :: "real \<Rightarrow> string" where
  "spec_emotion_label score =
     (if score > 0.5 then ''Energetic & Passionate''
      else if score > 0 then ''Warm & Friendly''
      else if score < - 0.5 then ''Cool & Professional''
      else if score < 0 then ''Calm & Trustworthy''
      else ''Balanced & Neutral'')"

text \<open>The palette entry the loop settles on: the first one at the least distance.\<close>

definition picks :: "rgb \<Rightarrow> (string \<times> rgb) list \<Rightarrow> string \<Rightarrow> real \<Rightarrow> bool" where
  "picks rgb pal name d \<longleftrightarrow>
     (\<exists>pre c post. pal = pre @ (name, c) # post \<and> d = distance rgb c \<and>
        (\<forall>e \<in> set pre. d < distance rgb (snd e)) \<and>
        (\<forall>e \<in> set post. d \<le> distance rgb (snd e)))"

text \<open>The count a \<open>Counter\<close> holds for a key, 0 for a key it does not hold.\<close>

definition count_in :: "('k \<times> nat) list \<Rightarrow> 'k \<Rightarrow> nat" where
  "count_in c k = (case map_of c k of None \<Rightarrow> 0 | Some n \<Rightarrow> n)"

section \<open>functions.py: the difference hash\<close>

text \<open>
  A single-channel (mode L) image of the imaging library: its size and its pixel
  values. \<open>getpixel\<close> raises outside the image.
\<close>

record gray_image =
  img_width :: nat
  img_height :: nat
  img_pixel :: "nat \<Rightarrow> nat \<Rightarrow> nat"

definition getpixel :: "gray_image \<Rightarrow> nat \<times> nat \<Rightarrow> py_error + nat" where
  "getpixel img xy =
     (case xy of (x, y) \<Rightarrow>
        if x < img_width img \<and> y < img_height img then Inr (img_pixel img x y)
        else Inl IndexError)"

text \<open>
  \<open>dhash\<close>. The library call \<open>image.convert("L").resize(size, Image.LANCZOS)\<close> is the
  parameter \<open>convert_resize\<close>, given the image and the requested (width, height). The
  comprehension runs \<open>y\<close> in the outer loop and \<open>x\<close> in the inner one.
\<close>

definition dhash ::
  "('img \<Rightarrow> nat \<times> nat \<Rightarrow> gray_image) \<Rightarrow> 'img \<Rightarrow> nat \<Rightarrow> py_error + string" where
  "dhash convert_resize img hash_size =
     (let resized = convert_resize img (hash_size + 1, hash_size)
      in bindE (mapE (\<lambda>(y, x). bindE (getpixel resized (x, y)) (\<lambda>l.
                                  bindE (getpixel resized (x + 1, y)) (\<lambda>r.
                                  Inr (l > r))))
                 (List.product [0..<hash_size] [0..<hash_size])) (\<lambda>diff.
         Inr (map (\<lambda>d. if d then CHR ''1'' else CHR ''0'') diff)))"

section \<open>functions.py and main.py: brands and the selection of domains\<close>

text \<open>
  \<open>str.split(".")\<close> and \<open>re.split(r"[-_]", s)\<close>: the pieces between the separator
  characters, empty pieces included; the result always has at least one piece.
\<close>

fun split_on :: "(char \<Rightarrow> bool) \<Rightarrow> string \<Rightarrow> string list" where
  "split_on sep [] = [[]]"
| "split_on sep (c # cs) =
     (if sep c then [] # split_on sep cs
      else (case split_on sep cs of [] \<Rightarrow> [[c]] | w # ws \<Rightarrow> (c # w) # ws))"

definition extract_brand :: "string \<Rightarrow> py_error + string" where
  "extract_brand domain =
     bindE (index (split_on (\<lambda>c. c = CHR ''.'') domain) 0) (\<lambda>domain'.
       let words = split_on (\<lambda>c. c = CHR ''-'' \<or> c = CHR ''_'') domain'
       in index words 0)"

text \<open>
  \<open>brand_dict[brand].append(domain)\<close> on a \<open>defaultdict(list)\<close>: a dictionary in
  insertion order, a new key entering at the end with the one-element list.
\<close>

fun dd_append :: "'k \<Rightarrow> 'v \<Rightarrow> ('k \<times> 'v list) list \<Rightarrow> ('k \<times> 'v list) list" where
  "dd_append k v [] = [(k, [v])]"
| "dd_append k v ((k', vs) # rest) =
     (if k = k' then (k', vs @ [v]) # rest else (k', vs) # dd_append k v rest)"

text \<open>The loop of \<open>download_logos\<close> that groups the domains by brand.\<close>

fun group_domains ::
  "string list \<Rightarrow> (string \<times> string list) list \<Rightarrow> py_error + (string \<times> string list) list"
where
  "group_domains [] brand_dict = Inr brand_dict"
| "group_domains (domain # rest) brand_dict =
     bindE (extract_brand domain) (\<lambda>brand.
       group_domains rest (dd_append brand domain brand_dict))"

text \<open>\<open>selected_domains = [domains[0] for domains in brand_dict.values()]\<close>\<close>

definition select_domains :: "string list \<Rightarrow> py_error + string list" where
  "select_domains domains =
     bindE (group_domains domains []) (\<lambda>brand_dict.
       mapE (\<lambda>domains. index domains 0) (map snd brand_dict))"

text \<open>
  What \<open>extract_brand\<close> computes, as a total function: the part of the domain before
  its first dot, dash or underscore.
\<close>

definition brand_of :: "string \<Rightarrow> string" where
  "brand_of domain = takeWhile (\<lambda>c. c \<notin> {CHR ''.'', CHR ''-'', CHR ''_''}) domain"

text \<open>
  The brand in the words of the specification: the top-level suffix (the last dot and
  the label after it) is removed, then any trailing dash- or underscore-separated
  qualifier (everything from the first dash or underscore on).
\<close>

definition strip_top_level_suffix :: "string \<Rightarrow> string" where
  "strip_top_level_suffix domain =
     (if CHR ''.'' \<in> set domain
      then rev (tl (dropWhile (\<lambda>c. c \<noteq> CHR ''.'') (rev domain)))
      else domain)"

definition spec_brand :: "string \<Rightarrow> string" where
  "spec_brand domain =
     takeWhile (\<lambda>c. c \<noteq> CHR ''-'' \<and> c \<noteq> CHR ''_'') (strip_top_level_suffix domain)"

text \<open>First-seen wins: the elements whose key no earlier element has.\<close>

fun first_seen :: "('a \<Rightarrow> 'b) \<Rightarrow> 'a list \<Rightarrow> 'b list \<Rightarrow> 'a list" where
  "first_seen f [] seen = []"
| "first_seen f (x # xs) seen =
     (if f x \<in> set seen then first_seen f xs seen else x # first_seen f xs (seen @ [f x]))"

section \<open>main.py: downloads and exact duplicates\<close>

text \<open>\<open>os.path.join\<close> of two components, on POSIX paths.\<close>

definition path_join :: "string \<Rightarrow> string \<Rightarrow> string" where
  "path_join a b =
     (if b \<noteq> [] \<and> hd b = CHR ''/'' then b
      else if a = [] \<or> last a = CHR ''/'' then a @ b
      else a @ ''/'' @ b)"

text \<open>
  The state of one download run: the global dictionary \<open>hashes\<close> (hash to file path)
  and the files on disk, a map from path to content.
\<close>

record 'f dl_state =
  hashes :: "string \<rightharpoonup> string"
  disk :: "string \<rightharpoonup> 'f"

definition os_remove :: "(string \<rightharpoonup> 'f) \<Rightarrow> string \<Rightarrow> py_error + (string \<rightharpoonup> 'f)" where
  "os_remove d path = (if d path = None then Inl FileNotFoundError else Inr (d(path := None)))"

text \<open>
  \<open>download_logo\<close>. The two HTTP requests are the parameter \<open>fetched\<close>: the bytes
  written for a domain, or \<open>None\<close> where nothing is written (no logo URL, a status other
  than 200, an exception before the file is opened). Every exception is caught inside.
\<close>

definition download_logo ::
  "(string \<Rightarrow> 'f option) \<Rightarrow> string \<Rightarrow> (string \<rightharpoonup> 'f) \<Rightarrow> (string \<rightharpoonup> 'f)" where
  "download_logo fetched domain d =
     (case fetched domain of
        None \<Rightarrow> d
      | Some bytes \<Rightarrow>
          (case index (split_on (\<lambda>c. c = CHR ''.'') domain) 0 of
             Inl e \<Rightarrow> d
           | Inr stem \<Rightarrow> d(path_join ''logos'' (stem @ ''.png'') \<mapsto> bytes)))"

text \<open>
  \<open>process_logo\<close>. \<open>Image.open\<close> is the parameter \<open>image_open\<close>, which raises on
  content that is no image; \<open>dhash\<close> is called with its default \<open>hash_size = 8\<close>. The
  \<open>try\<close> block is the inner \<open>bindE\<close> expression; its \<open>Inl\<close> goes to the handler, which
  removes the file.
\<close>

definition process_logo ::
  "(string \<Rightarrow> 'f option) \<Rightarrow> ('f \<Rightarrow> py_error + 'img) \<Rightarrow> ('img \<Rightarrow> nat \<times> nat \<Rightarrow> gray_image) \<Rightarrow>
   string \<Rightarrow> string \<Rightarrow> 'f dl_state \<Rightarrow> py_error + 'f dl_state" where
  "process_logo fetched image_open convert_resize domain output_folder st =
     bindE (index (split_on (\<lambda>c. c = CHR ''.'') domain) 0) (\<lambda>stem.
       let logo_path = path_join output_folder (stem @ ''.png'');
           st1 = st\<lparr>disk := download_logo fetched domain (disk st)\<rparr>
       in case disk st1 logo_path of
            None \<Rightarrow> Inr st1
          | Some bytes \<Rightarrow>
              (case bindE (image_open bytes) (\<lambda>img.
                      bindE (dhash convert_resize img 8) (\<lambda>hash_value.
                        if hashes st1 hash_value \<noteq> None
                        then bindE (os_remove (disk st1) logo_path) (\<lambda>d. Inr (st1\<lparr>disk := d\<rparr>))
                        else Inr (st1\<lparr>hashes := (hashes st1)(hash_value \<mapsto> logo_path)\<rparr>)))
               of
                 Inr st2 \<Rightarrow> Inr st2
               | Inl e \<Rightarrow> bindE (os_remove (disk st1) logo_path) (\<lambda>d. Inr (st1\<lparr>disk := d\<rparr>))))"

text \<open>
  The fetch pool of \<open>download_logos\<close>, with \<open>output_folder = "logos"\<close>. The lock makes
  the lookup and the insertion of one task atomic, and the tasks write different files;
  the model runs the tasks one after the other, in the order of the list.
\<close>

fun process_all ::
  "(string \<Rightarrow> 'f option) \<Rightarrow> ('f \<Rightarrow> py_error + 'img) \<Rightarrow> ('img \<Rightarrow> nat \<times> nat \<Rightarrow> gray_image) \<Rightarrow>
   string list \<Rightarrow> 'f dl_state \<Rightarrow> py_error + 'f dl_state" where
  "process_all fetched image_open convert_resize [] st = Inr st"
| "process_all fetched image_open convert_resize (domain # rest) st =
     bindE (process_logo fetched image_open convert_resize domain ''logos'' st)
       (process_all fetched image_open convert_resize rest)"

text \<open>The hash of a file's content and the path of a domain's logo, as \<open>process_logo\<close> computes them.\<close>

definition file_hash ::
  "('f \<Rightarrow> py_error + 'img) \<Rightarrow> ('img \<Rightarrow> nat \<times> nat \<Rightarrow> gray_image) \<Rightarrow> 'f \<Rightarrow> py_error + string" where
  "file_hash image_open convert_resize bytes =
     bindE (image_open bytes) (\<lambda>img. dhash convert_resize img 8)"

definition logo_path_of :: "string \<Rightarrow> string \<Rightarrow> string" where
  "logo_path_of output_folder domain =
     path_join output_folder (takeWhile (\<lambda>c. c \<noteq> CHR ''.'') domain @ ''.png'')"

text \<open>
  The invariant of the run: every file of the set \<open>P\<close> that is on disk hashes to a
  value that the registry maps to that very file.
\<close>

definition holder_inv ::
  "('f \<Rightarrow> py_error + 'img) \<Rightarrow> ('img \<Rightarrow> nat \<times> nat \<Rightarrow> gray_image) \<Rightarrow> string set \<Rightarrow>
   'f dl_state \<Rightarrow> bool" where
  "holder_inv image_open convert_resize P st \<longleftrightarrow>
     (\<forall>p \<in> P. \<forall>bytes. disk st p = Some bytes \<longrightarrow>
        (\<exists>h. file_hash image_open convert_resize bytes = Inr h \<and> hashes st h = Some p))"

section \<open>main.py: near duplicates\<close>

text \<open>
  \<open>cv2.imread\<close> returns \<open>None\<close> for a path that holds no file and for a file it
  cannot decode; the decoder is the parameter \<open>imdecode\<close>.
\<close>

definition cv2_imread :: "('f \<Rightarrow> 'm option) \<Rightarrow> (string \<rightharpoonup> 'f) \<Rightarrow> string \<Rightarrow> 'm option" where
  "cv2_imread imdecode d path = (case d path of None \<Rightarrow> None | Some bytes \<Rightarrow> imdecode bytes)"

text \<open>
  \<open>calculate_histogram_similarity\<close>. The colour conversion, the two histograms, their
  normalisation and \<open>cv2.compareHist\<close> with the correlation method are the parameter
  \<open>hist_correl\<close> of the two decoded images; the last line remaps its value.
\<close>

definition calculate_histogram_similarity ::
  "('f \<Rightarrow> 'm option) \<Rightarrow> ('m \<Rightarrow> 'm \<Rightarrow> real) \<Rightarrow> (string \<rightharpoonup> 'f) \<Rightarrow> string \<Rightarrow> string \<Rightarrow>
   py_error + real" where
  "calculate_histogram_similarity imdecode hist_correl d image1 image2 =
     (let img1 = cv2_imread imdecode d image1;
          img2 = cv2_imread imdecode d image2
      in case img1 of
           None \<Rightarrow> Inl FileNotFoundError
         | Some m1 \<Rightarrow>
             (case img2 of
                None \<Rightarrow> Inl FileNotFoundError
              | Some m2 \<Rightarrow>
                  (let similarity = hist_correl m1 m2
                   in Inr ((similarity + 1) / 2 * 100))))"

text \<open>\<open>shutil.move\<close> of a file to a file path: it raises where the source is missing.\<close>

definition shutil_move ::
  "(string \<rightharpoonup> 'f) \<Rightarrow> string \<Rightarrow> string \<Rightarrow> py_error + (string \<rightharpoonup> 'f)" where
  "shutil_move d src dst =
     (case d src of
        None \<Rightarrow> Inl FileNotFoundError
      | Some bytes \<Rightarrow> Inr ((d(src := None))(dst \<mapsto> bytes)))"

text \<open>
  \<open>check_similarity\<close>: first the body of its \<open>try\<close> block, then the function with the
  handler \<open>except Exception: pass\<close>. The \<open>print\<close> does not touch the files and is left out.
\<close>

definition check_similarity_try ::
  "('f \<Rightarrow> 'm option) \<Rightarrow> ('m \<Rightarrow> 'm \<Rightarrow> real) \<Rightarrow> string \<Rightarrow> (string \<rightharpoonup> 'f) \<Rightarrow> string \<Rightarrow> string \<Rightarrow>
   py_error + (string \<rightharpoonup> 'f)" where
  "check_similarity_try imdecode hist_correl output_folder d image1 image2 =
     (let file1_path = path_join output_folder image1;
          file2_path = path_join output_folder image2
      in bindE (calculate_histogram_similarity imdecode hist_correl d file1_path file2_path)
           (\<lambda>similarity.
              if similarity > 49 \<and> take 3 image1 = take 3 image2
              then shutil_move d file2_path (path_join ''duplicates'' image2)
              else Inr d))"

definition check_similarity ::
  "('f \<Rightarrow> 'm option) \<Rightarrow> ('m \<Rightarrow> 'm \<Rightarrow> real) \<Rightarrow> string \<Rightarrow> (string \<rightharpoonup> 'f) \<Rightarrow> string \<Rightarrow> string \<Rightarrow>
   py_error + (string \<rightharpoonup> 'f)" where
  "check_similarity imdecode hist_correl output_folder d image1 image2 =
     (case check_similarity_try imdecode hist_correl output_folder d image1 image2 of
        Inl e \<Rightarrow> Inr d
      | Inr d' \<Rightarrow> Inr d')"

text \<open>
  The verdict of one task on the files as they are when it runs: the comparison returns
  a score, the score is above 49 and the two names agree on their first three
  characters. And its action: the second file leaves the folder for the duplicates
  folder.
\<close>

definition near_duplicate ::
  "('f \<Rightarrow> 'm option) \<Rightarrow> ('m \<Rightarrow> 'm \<Rightarrow> real) \<Rightarrow> string \<Rightarrow> (string \<rightharpoonup> 'f) \<Rightarrow> string \<Rightarrow> string \<Rightarrow>
   bool" where
  "near_duplicate imdecode hist_correl output_folder d image1 image2 =
     (case calculate_histogram_similarity imdecode hist_correl d
             (path_join output_folder image1) (path_join output_folder image2) of
        Inl e \<Rightarrow> False
      | Inr similarity \<Rightarrow> similarity > 49 \<and> take 3 image1 = take 3 image2)"

definition relocate :: "string \<Rightarrow> (string \<rightharpoonup> 'f) \<Rightarrow> string \<Rightarrow> (string \<rightharpoonup> 'f)" where
  "relocate output_folder d image2 =
     (case d (path_join output_folder image2) of
        None \<Rightarrow> d
      | Some bytes \<Rightarrow>
          (d(path_join output_folder image2 := None))(path_join ''duplicates'' image2 \<mapsto> bytes))"

text \<open>
  The pairs that the loops of \<open>move_similar_logos\<close> submit, in the order of submission;
  \<open>rest\<close> is \<open>files[i + 1:]\<close>.
\<close>

fun submitted :: "string list \<Rightarrow> string list \<Rightarrow> (string \<times> string) list" where
  "submitted [] checked_files = []"
| "submitted (file1 # rest) checked_files =
     (if file1 \<in> set checked_files then submitted rest checked_files
      else map (Pair file1) rest @ submitted rest (file1 # checked_files))"

text \<open>
  \<open>move_similar_logos\<close> on the listing \<open>files\<close> of the folder, the tasks run one after
  the other in the order of submission (the pool with a single worker).
\<close>

fun run_tasks ::
  "('f \<Rightarrow> 'm option) \<Rightarrow> ('m \<Rightarrow> 'm \<Rightarrow> real) \<Rightarrow> string \<Rightarrow> (string \<times> string) list \<Rightarrow>
   (string \<rightharpoonup> 'f) \<Rightarrow> py_error + (string \<rightharpoonup> 'f)" where
  "run_tasks imdecode hist_correl output_folder [] d = Inr d"
| "run_tasks imdecode hist_correl output_folder ((image1, image2) # tasks) d =
     bindE (check_similarity imdecode hist_correl output_folder d image1 image2)
       (run_tasks imdecode hist_correl output_folder tasks)"

definition move_similar_logos ::
  "('f \<Rightarrow> 'm option) \<Rightarrow> ('m \<Rightarrow> 'm \<Rightarrow> real) \<Rightarrow> string \<Rightarrow> string list \<Rightarrow>
   (string \<rightharpoonup> 'f) \<Rightarrow> py_error + (string \<rightharpoonup> 'f)" where
  "move_similar_logos imdecode hist_correl output_folder files d =
     run_tasks imdecode hist_correl output_folder (submitted files []) d"

text \<open>
  The pool with several workers. A task acts on the files twice: it compares (line 57,
  and the test of line 58 on the result), and later, if the test held, it moves (line
  60); the steps of other tasks may fall in between. A schedule is a list of such
  events; \<open>moving\<close> holds the tasks that passed the test and have not yet moved. A
  failure of either step ends the task and leaves the files as they are.
\<close>

datatype event = Compare string string | Move string string

fun task_of :: "event \<Rightarrow> string \<times> string" where
  "task_of (Compare image1 image2) = (image1, image2)"
| "task_of (Move image1 image2) = (image1, image2)"

record 'f pool_state =
  pool_disk :: "string \<rightharpoonup> 'f"
  moving :: "(string \<times> string) list"

fun pool_step ::
  "('f \<Rightarrow> 'm option) \<Rightarrow> ('m \<Rightarrow> 'm \<Rightarrow> real) \<Rightarrow> string \<Rightarrow> 'f pool_state \<Rightarrow> event \<Rightarrow> 'f pool_state"
where
  "pool_step imdecode hist_correl output_folder s (Compare image1 image2) =
     (case calculate_histogram_similarity imdecode hist_correl (pool_disk s)
             (path_join output_folder image1) (path_join output_folder image2) of
        Inl e \<Rightarrow> s
      | Inr similarity \<Rightarrow>
          if similarity > 49 \<and> take 3 image1 = take 3 image2
          then s\<lparr>moving := (image1, image2) # moving s\<rparr>
          else s)"
| "pool_step imdecode hist_correl output_folder s (Move image1 image2) =
     (if (image1, image2) \<in> set (moving s)
      then (case shutil_move (pool_disk s) (path_join output_folder image2)
                   (path_join ''duplicates'' image2) of
              Inl e \<Rightarrow> s\<lparr>moving := remove1 (image1, image2) (moving s)\<rparr>
            | Inr d \<Rightarrow> s\<lparr>pool_disk := d, moving := remove1 (image1, image2) (moving s)\<rparr>)
      else s)"

definition pool_run ::
  "('f \<Rightarrow> 'm option) \<Rightarrow> ('m \<Rightarrow> 'm \<Rightarrow> real) \<Rightarrow> string \<Rightarrow> event list \<Rightarrow>
   (string \<rightharpoonup> 'f) \<Rightarrow> (string \<rightharpoonup> 'f)" where
  "pool_run imdecode hist_correl output_folder events d =
     pool_disk (foldl (pool_step imdecode hist_correl output_folder)
                  \<lparr>pool_disk = d, moving = []\<rparr> events)"

text \<open>The schedule that runs each task to its end before the next one starts.\<close>

definition sequential :: "(string \<times> string) list \<Rightarrow> event list" where
  "sequential tasks = concat (map (\<lambda>(image1, image2). [Compare image1 image2, Move image1 image2]) tasks)"

text \<open>
  What the tasks in flight and the files missing so far have in common: each belongs to
  a submitted pair with equal three-character prefixes, and a missing file is the
  second file of its pair.
\<close>

definition pool_inv ::
  "string \<Rightarrow> (string \<times> string) set \<Rightarrow> (string \<rightharpoonup> 'f) \<Rightarrow> 'f pool_state \<Rightarrow> bool" where
  "pool_inv output_folder T d0 s \<longleftrightarrow>
     (\<forall>t \<in> set (moving s). t \<in> T \<and> take 3 (fst t) = take 3 (snd t)) \<and>
     (\<forall>p. d0 p \<noteq> None \<and> pool_disk s p = None \<longrightarrow>
        (\<exists>t \<in> T. take 3 (fst t) = take 3 (snd t) \<and> p = path_join output_folder (snd t)))"

section \<open>The histogram correlation\<close>

text \<open>
  The computation inside \<open>calculate_histogram_similarity\<close> between decoding and the remap
  is done by the image library and is not in the sources. The specification describes
  it: a histogram over hue, saturation and value is computed for each image, each
  histogram is min-max normalised to the range 0 to 255, and the Pearson correlation of
  the two histograms is taken. Values are real numbers. Where a denominator is 0 (a
  constant histogram) the quotient is 0, as every quotient by 0 in HOL; the results
  below do not use that case.
\<close>

text \<open>
  Modelled from the spec: the library's min-max normalisation of a histogram to the
  range 0 to 255.
\<close>

definition minmax_normalize :: "real list \<Rightarrow> real list" where
  "minmax_normalize h =
     map (\<lambda>x. (x - Min (set h)) * 255 / (Max (set h) - Min (set h))) h"

text \<open>Modelled from the spec: the mean of a histogram, for the Pearson correlation.\<close>

definition mean :: "real list \<Rightarrow> real" where
  "mean h = sum_list h / real (length h)"

text \<open>
  Modelled from the spec: the library's comparison of two histograms by the correlation
  method, the Pearson correlation.
\<close>

definition pearson :: "real list \<Rightarrow> real list \<Rightarrow> real" where
  "pearson h1 h2 =
     sum_list (map2 (\<lambda>x y. (x - mean h1) * (y - mean h2)) h1 h2)
       / sqrt (sum_list (map (\<lambda>x. (x - mean h1)\<^sup>2) h1) * sum_list (map (\<lambda>y. (y - mean h2)\<^sup>2) h2))"

text \<open>
  Modelled from the spec: the library pipeline between decoding and the remap, the
  correlation of the two normalised histograms. The histogram of a decoded image
  (colour conversion and bin counts, flattened) is the parameter \<open>calc_hist\<close>.
\<close>

definition spec_hist_correl :: "('m \<Rightarrow> real list) \<Rightarrow> 'm \<Rightarrow> 'm \<Rightarrow> real" where
  "spec_hist_correl calc_hist m1 m2 =
     pearson (minmax_normalize (calc_hist m1)) (minmax_normalize (calc_hist m2))"

section \<open>Example inputs\<close>

text \<open>
  Three logos of one prefix group in the folder; the decoded image of a file is its
  number. The pairs (1, 2) and (2, 3) correlate at 0.5 (score 75), the pair (1, 3) at
  -0.1 (score 45).
\<close>

definition abc_disk :: "string \<rightharpoonup> nat" where
  "abc_disk =
     [''logos/abc_1.png'' \<mapsto> 1, ''logos/abc_2.png'' \<mapsto> 2, ''logos/abc_3.png'' \<mapsto> 3]"

definition abc_correl :: "nat \<Rightarrow> nat \<Rightarrow> real" where
  "abc_correl m1 m2 = (if m1 = 1 \<and> m2 = 3 then - 0.1 else 0.5)"

definition abc_files :: "string list" where
  "abc_files = [''abc_1.png'', ''abc_2.png'', ''abc_3.png'']"

text \<open>The schedule of the pool that runs all three comparisons before the first move.\<close>

definition abc_compare_first :: "event list" where
  "abc_compare_first =
     [Compare ''abc_1.png'' ''abc_2.png'', Compare ''abc_1.png'' ''abc_3.png'',
      Compare ''abc_2.png'' ''abc_3.png'', Move ''abc_1.png'' ''abc_2.png'',
      Move ''abc_1.png'' ''abc_3.png'', Move ''abc_2.png'' ''abc_3.png'']"

text \<open>
  The logos of the domains foo-bar.com and foobaz.net in the folder, correlating at 0.2
  (score 60).
\<close>

definition foo_disk :: "string \<rightharpoonup> nat" where
  "foo_disk = [''logos/foo-bar.png'' \<mapsto> 1, ''logos/foobaz.png'' \<mapsto> 2]"

definition foo_correl :: "nat \<Rightarrow> nat \<Rightarrow> real" where
  "foo_correl m1 m2 = 0.2"

section \<open>Results on the colour classifiers\<close>

lemma distance_less_iff:
  "distance rgb c < distance rgb c' \<longleftrightarrow> sq_sum rgb c < sq_sum rgb c'"
  by (simp add: distance_def)

lemma distance_le_iff:
  "distance rgb c \<le> distance rgb c' \<longleftrightarrow> sq_sum rgb c \<le> sq_sum rgb c'"
  by (simp add: distance_def)

lemma picks_here:
  "\<forall>e \<in> set rest. distance rgb c \<le> distance rgb (snd e) \<Longrightarrow>
   picks rgb ((name, c) # rest) name (distance rgb c)"
  unfolding picks_def
  by (rule exI [of _ "[]"], rule exI [of _ c], rule exI [of _ rest]) simp

lemma picks_later:
  assumes "picks rgb rest name d" and "d < distance rgb (snd a)"
  shows "picks rgb (a # rest) name d"
proof -
  from assms(1) obtain pre c post where
    h: "rest = pre @ (name, c) # post" "d = distance rgb c"
      "\<forall>e \<in> set pre. d < distance rgb (snd e)"
      "\<forall>e \<in> set post. d \<le> distance rgb (snd e)"
    unfolding picks_def by blast
  have "a # rest = (a # pre) @ (name, c) # post" using h(1) by simp
  moreover have "\<forall>e \<in> set (a # pre). d < distance rgb (snd e)"
    using h(3) assms(2) by simp
  ultimately show ?thesis
    unfolding picks_def using h(2,4) by blast
qed

lemma closest_loop_split:
  "closest_loop rgb pal (Some m, Some n0) = (md, cc) \<Longrightarrow>
     (md = Some m \<and> cc = Some n0 \<and> (\<forall>e \<in> set pal. m \<le> distance rgb (snd e)))
   \<or> (\<exists>name d. cc = Some name \<and> md = Some d \<and> d < m \<and> picks rgb pal name d)"
proof (induction pal arbitrary: m n0)
  case Nil
  then show ?case by simp
next
  case (Cons a rest)
  obtain nm c where a: "a = (nm, c)" by (cases a)
  show ?case
  proof (cases "distance rgb c < m")
    case True
    with Cons.prems a
    have run: "closest_loop rgb rest (Some (distance rgb c), Some nm) = (md, cc)" by simp
    from Cons.IH [OF run] show ?thesis
    proof
      assume h: "md = Some (distance rgb c) \<and> cc = Some nm \<and>
        (\<forall>e \<in> set rest. distance rgb c \<le> distance rgb (snd e))"
      then have "picks rgb (a # rest) nm (distance rgb c)"
        unfolding a by (intro picks_here) simp
      with h True show ?thesis by simp
    next
      assume "\<exists>name d. cc = Some name \<and> md = Some d \<and> d < distance rgb c \<and> picks rgb rest name d"
      then obtain name d where
        h: "cc = Some name" "md = Some d" "d < distance rgb c" "picks rgb rest name d"
        by blast
      have "picks rgb (a # rest) name d"
        using picks_later [OF h(4)] h(3) a by simp
      moreover have "d < m" using h(3) True by simp
      ultimately show ?thesis using h(1,2) by simp
    qed
  next
    case False
    with Cons.prems a
    have run: "closest_loop rgb rest (Some m, Some n0) = (md, cc)" by simp
    from Cons.IH [OF run] show ?thesis
    proof
      assume "md = Some m \<and> cc = Some n0 \<and> (\<forall>e \<in> set rest. m \<le> distance rgb (snd e))"
      with False a show ?thesis by simp
    next
      assume "\<exists>name d. cc = Some name \<and> md = Some d \<and> d < m \<and> picks rgb rest name d"
      then obtain name d where
        h: "cc = Some name" "md = Some d" "d < m" "picks rgb rest name d"
        by blast
      have "d < distance rgb (snd a)" using h(3) False a by simp
      then have "picks rgb (a # rest) name d"
        using picks_later [OF h(4)] by simp
      then show ?thesis using h(1,2,3) by simp
    qed
  qed
qed

lemma closest_loop_first:
  assumes "pal \<noteq> []"
  shows "\<exists>name d. snd (closest_loop rgb pal (None, None)) = Some name \<and> picks rgb pal name d"
proof -
  from assms obtain nm c rest where pal: "pal = (nm, c) # rest"
    by (cases pal) auto
  obtain md cc where run: "closest_loop rgb rest (Some (distance rgb c), Some nm) = (md, cc)"
    by (cases "closest_loop rgb rest (Some (distance rgb c), Some nm)")
  have res: "snd (closest_loop rgb pal (None, None)) = cc"
    using pal run by simp
  from closest_loop_split [OF run] show ?thesis
  proof
    assume h: "md = Some (distance rgb c) \<and> cc = Some nm \<and>
        (\<forall>e \<in> set rest. distance rgb c \<le> distance rgb (snd e))"
    then have "picks rgb pal nm (distance rgb c)"
      unfolding pal by (intro picks_here) simp
    with h res show ?thesis by blast
  next
    assume "\<exists>name d. cc = Some name \<and> md = Some d \<and> d < distance rgb c \<and> picks rgb rest name d"
    then obtain name d where
      h: "cc = Some name" "d < distance rgb c" "picks rgb rest name d"
      by blast
    have "picks rgb pal name d"
      unfolding pal using picks_later [OF h(3)] h(2) by simp
    with h(1) res show ?thesis by blast
  qed
qed

lemma broad_names:
  "fst ` set BROAD_COLORS =
     {''Red'', ''Orange'', ''Yellow'', ''Green'', ''Blue'', ''White'', ''Black''}"
  by (simp add: BROAD_COLORS_def)

lemma closest_broad_color_picks:
  "\<exists>name d. closest_broad_color rgb = Some name \<and> picks rgb BROAD_COLORS name d"
  unfolding closest_broad_color_def
  by (rule closest_loop_first) (simp add: BROAD_COLORS_def)

lemma picks_name: "picks rgb pal name d \<Longrightarrow> name \<in> fst ` set pal"
  unfolding picks_def by force

lemma closest_broad_color_name:
  "\<exists>name. closest_broad_color rgb = Some name \<and> name \<in> fst ` set BROAD_COLORS"
  using closest_broad_color_picks [of rgb] picks_name by blast

text \<open>
  C8. \<open>closest_broad_color\<close> never returns \<open>None\<close>: for every RGB triple (of any
  integers, so also in the range 0 to 255) it returns the name of one entry of the
  palette, which is one of the seven categories. That entry is at the least Euclidean
  distance from the input, and every entry before it in the palette's iteration order is
  strictly farther away: among entries at equal least distance the earliest is returned.
\<close>

theorem closest_broad_color_total:
  "\<exists>pre name c post.
     closest_broad_color rgb = Some name \<and>
     name \<in> {''Red'', ''Orange'', ''Yellow'', ''Green'', ''Blue'', ''White'', ''Black''} \<and>
     BROAD_COLORS = pre @ (name, c) # post \<and>
     (\<forall>e \<in> set pre. distance rgb c < distance rgb (snd e)) \<and>
     (\<forall>e \<in> set post. distance rgb c \<le> distance rgb (snd e))"
proof -
  obtain name d where h: "closest_broad_color rgb = Some name" "picks rgb BROAD_COLORS name d"
    using closest_broad_color_picks by blast
  from h(2) obtain pre c post where
    p: "BROAD_COLORS = pre @ (name, c) # post"
      "\<forall>e \<in> set pre. distance rgb c < distance rgb (snd e)"
      "\<forall>e \<in> set post. distance rgb c \<le> distance rgb (snd e)"
    unfolding picks_def by blast
  have "name \<in> fst ` set BROAD_COLORS" using h(2) by (rule picks_name)
  then have "name \<in> {''Red'', ''Orange'', ''Yellow'', ''Green'', ''Blue'', ''White'', ''Black''}"
    unfolding broad_names .
  with h(1) p show ?thesis
    by (intro exI [of _ pre] exI [of _ name] exI [of _ c] exI [of _ post]) simp
qed

text \<open>
  The input (155, 100, 0) is at the same distance from Red and from Orange, and no other
  entry is as near: Red, the earlier of the two, is returned.
\<close>

theorem closest_broad_color_total_witness:
  "closest_broad_color (155, 100, 0) = Some ''Red'' \<and>
   distance (155, 100, 0) (220, 20, 60) = distance (155, 100, 0) (255, 165, 0)"
proof -
  obtain pre name c post where
    h: "closest_broad_color (155, 100, 0) = Some name"
      "BROAD_COLORS = pre @ (name, c) # post"
      "\<forall>e \<in> set pre. distance (155, 100, 0) c < distance (155, 100, 0) (snd e)"
    using closest_broad_color_total [of "(155, 100, 0)"] by blast
  have mem: "(name, c) \<in> set BROAD_COLORS" unfolding h(2) by simp
  have least: "\<not> distance (155, 100, 0) c < distance (155, 100, 0) (220, 20, 60)"
    using mem by (auto simp: BROAD_COLORS_def distance_less_iff)
  have "pre = []"
  proof (cases pre)
    case Nil
    then show ?thesis .
  next
    case (Cons a pre')
    with h(2) have "a = (''Red'', (220, 20, 60))" by (simp add: BROAD_COLORS_def)
    with h(3) Cons least show ?thesis by simp
  qed
  with h(2) have "name = ''Red''" by (simp add: BROAD_COLORS_def)
  moreover have "distance (155, 100, 0) (220, 20, 60) = distance (155, 100, 0) (255, 165, 0)"
    by (simp add: distance_def)
  ultimately show ?thesis using h(1) by simp
qed

subsection \<open>Counter and most_common\<close>

lemma counter_add_keys:
  "map fst (counter_add k c) =
     (if k \<in> set (map fst c) then map fst c else map fst c @ [k])"
  by (induction c) (auto simp: rev_image_eqI)

lemma counter_add_map_of:
  "map_of (counter_add k c) =
     (map_of c)(k \<mapsto> (case map_of c k of None \<Rightarrow> 1 | Some n \<Rightarrow> Suc n))"
  by (induction c) (auto simp: fun_eq_iff)

lemma foldl_counter_keys:
  "distinct (map fst c) \<Longrightarrow>
   distinct (map fst (foldl (\<lambda>c x. counter_add x c) c xs)) \<and>
   fst ` set (foldl (\<lambda>c x. counter_add x c) c xs) = fst ` set c \<union> set xs"
proof (induction xs arbitrary: c)
  case Nil
  then show ?case by simp
next
  case (Cons x xs)
  have d: "distinct (map fst (counter_add x c))"
    using Cons.prems by (auto simp: counter_add_keys)
  have k: "fst ` set (counter_add x c) = insert x (fst ` set c)"
  proof -
    have "set (map fst (counter_add x c)) = insert x (fst ` set c)"
      by (auto simp: counter_add_keys)
    then show ?thesis by simp
  qed
  from Cons.IH [OF d] k show ?case by auto
qed

lemma foldl_counter_count:
  "(\<forall>k \<in> fst ` set c. 0 < count_in c k) \<Longrightarrow>
   map_of (foldl (\<lambda>c x. counter_add x c) c xs) k =
     (if k \<in> fst ` set c \<union> set xs then Some (count_in c k + count_list xs k) else None)"
proof (induction xs arbitrary: c)
  case Nil
  show ?case
  proof (cases "map_of c k")
    case None
    then show ?thesis by (simp add: map_of_eq_None_iff count_in_def)
  next
    case (Some n)
    then have "k \<in> fst ` set c" by (force dest: map_of_SomeD)
    with Some show ?thesis by (simp add: count_in_def)
  qed
next
  case (Cons x xs)
  have k: "fst ` set (counter_add x c) = insert x (fst ` set c)"
  proof -
    have "set (map fst (counter_add x c)) = insert x (fst ` set c)"
      by (auto simp: counter_add_keys)
    then show ?thesis by simp
  qed
  have cnt: "count_in (counter_add x c) k' = (if k' = x then Suc (count_in c x) else count_in c k')" for k'
    by (simp add: count_in_def counter_add_map_of split: option.splits)
  have pos: "\<forall>k \<in> fst ` set (counter_add x c). 0 < count_in (counter_add x c) k"
    using Cons.prems by (simp add: k cnt)
  show ?case
    using Cons.IH [OF pos] by (simp add: k cnt)
qed

lemma Counter_distinct: "distinct (map fst (Counter xs))"
  unfolding Counter_def using foldl_counter_keys [of "[]" xs] by simp

lemma Counter_keys: "fst ` set (Counter xs) = set xs"
  unfolding Counter_def using foldl_counter_keys [of "[]" xs] by simp

lemma Counter_map_of:
  "map_of (Counter xs) k = (if k \<in> set xs then Some (count_list xs k) else None)"
  unfolding Counter_def using foldl_counter_count [of "[]" xs k] by (simp add: count_in_def)

lemma Counter_set: "set (Counter xs) = (\<lambda>k. (k, count_list xs k)) ` set xs"
proof -
  have "(k, n) \<in> set (Counter xs) \<longleftrightarrow> k \<in> set xs \<and> n = count_list xs k" for k n
    using map_of_eq_Some_iff [OF Counter_distinct, of xs k n]
    by (auto simp: Counter_map_of split: if_splits)
  then show ?thesis by auto
qed

lemma Counter_length: "length (Counter xs) = card (set xs)"
proof -
  have "length (Counter xs) = length (map fst (Counter xs))" by simp
  also have "\<dots> = card (set (map fst (Counter xs)))"
    using Counter_distinct [of xs] by (simp only: distinct_card)
  also have "\<dots> = card (set xs)" using Counter_keys [of xs] by simp
  finally show ?thesis .
qed

lemma Counter_sum:
  "sum_list (map g (Counter xs)) = (\<Sum>k \<in> set xs. g (k, count_list xs k))"
proof -
  have "distinct (Counter xs)" using Counter_distinct [of xs] by (rule distinct_map [THEN iffD1, THEN conjunct1])
  then have "sum_list (map g (Counter xs)) = sum g (set (Counter xs))"
    by (rule sum_list_distinct_conv_sum_set)
  also have "\<dots> = sum g ((\<lambda>k. (k, count_list xs k)) ` set xs)" by (simp only: Counter_set)
  also have "\<dots> = (\<Sum>k \<in> set xs. g (k, count_list xs k))"
    by (subst sum.reindex) (auto simp: inj_on_def)
  finally show ?thesis .
qed

lemma most_common_length: "length (most_common n c) = min n (length c)"
  by (simp add: most_common_def min.commute)

lemma most_common_all:
  "length c \<le> n \<Longrightarrow> most_common n c = sort_key (\<lambda>(k, v). - int v) c"
  by (simp add: most_common_def)

lemma sum_list_sort_key:
  "sum_list (map g (sort_key f xs)) = sum_list (map (g :: 'a \<Rightarrow> int) xs)"
proof -
  have "mset (map g (sort_key f xs)) = mset (map g xs)" by simp
  then show ?thesis by (metis sum_mset_sum_list)
qed

lemma mapE_Inr: "(\<forall>x \<in> set xs. f x = Inr (g x)) \<Longrightarrow> mapE f xs = Inr (map g xs)"
  by (induction xs) auto

subsection \<open>Minimalism\<close>

lemma most_common_keys_distinct:
  "distinct (map fst c) \<Longrightarrow> distinct (map fst (most_common n c))"
proof -
  assume d: "distinct (map fst c)"
  have "mset (map fst (sort_key (\<lambda>(k, v). - int v) c)) = mset (map fst c)" by simp
  then have "distinct (map fst (sort_key (\<lambda>(k, v). - int v) c))"
    using d by (metis mset_eq_imp_distinct_iff)
  then show ?thesis
    unfolding most_common_def take_map [symmetric] by (rule distinct_take)
qed

lemma most_common_keys_card:
  "card (fst ` set (most_common n (Counter xs))) = min n (card (set xs))"
proof -
  have "distinct (map fst (most_common n (Counter xs)))"
    using Counter_distinct by (rule most_common_keys_distinct)
  then have "card (set (map fst (most_common n (Counter xs)))) = length (map fst (most_common n (Counter xs)))"
    by (rule distinct_card)
  then show ?thesis by (simp add: most_common_length Counter_length)
qed

text \<open>
  C6. \<open>describe_logo_colors\<close> is true exactly when the number of distinct broad-colour
  buckets among the (at most 8) most common entries is at most 2, which is exactly when
  the cluster colours fall into at most 2 distinct buckets. Five clusters in the two
  buckets Red and Black give true; five clusters in the four buckets Red, Orange, Yellow
  and Green give false.
\<close>

theorem describe_logo_colors_iff:
  "(describe_logo_colors rgb_colors \<longleftrightarrow>
      card (fst ` set (most_common 8 (Counter (map closest_broad_color rgb_colors)))) \<le> 2) \<and>
   (describe_logo_colors rgb_colors \<longleftrightarrow> card (closest_broad_color ` set rgb_colors) \<le> 2) \<and>
   describe_logo_colors [(220, 20, 60), (200, 10, 50), (0, 0, 0), (10, 10, 10), (0, 0, 0)] \<and>
   \<not> describe_logo_colors [(220, 20, 60), (255, 165, 0), (255, 255, 0), (34, 139, 34), (200, 10, 50)]"
proof -
  have len: "length (most_common 8 (Counter (map closest_broad_color rgb_colors)))
      = min 8 (card (closest_broad_color ` set rgb_colors))"
    by (simp add: most_common_length Counter_length)
  have a: "describe_logo_colors rgb_colors \<longleftrightarrow>
      card (fst ` set (most_common 8 (Counter (map closest_broad_color rgb_colors)))) \<le> 2"
    unfolding most_common_keys_card by (simp add: describe_logo_colors_def len min_le_iff_disj)
  have b: "describe_logo_colors rgb_colors \<longleftrightarrow> card (closest_broad_color ` set rgb_colors) \<le> 2"
    by (simp add: describe_logo_colors_def len min_le_iff_disj)
  have c: "describe_logo_colors [(220, 20, 60), (200, 10, 50), (0, 0, 0), (10, 10, 10), (0, 0, 0)]"
    by (simp add: describe_logo_colors_def closest_broad_color_def BROAD_COLORS_def
        distance_less_iff Counter_def most_common_def)
  have d: "\<not> describe_logo_colors
      [(220, 20, 60), (255, 165, 0), (255, 255, 0), (34, 139, 34), (200, 10, 50)]"
    by (simp add: describe_logo_colors_def closest_broad_color_def BROAD_COLORS_def
        distance_less_iff Counter_def most_common_def)
  from a b c d show ?thesis by (intro conjI)
qed

subsection \<open>Emotion\<close>

lemma warmth_lookup_palette:
  "b \<in> fst ` set BROAD_COLORS \<Longrightarrow> warmth_lookup (Some b) = Inr (warmth_weight b)"
  unfolding broad_names
  by (auto simp: warmth_lookup_def COLOR_WARMTH_def warmth_weight_def)

lemma count_list_map_Some: "count_list (map Some xs) (Some b) = count_list xs b"
  by (induction xs) auto

lemma buckets_exist:
  "\<exists>buckets. map closest_broad_color rgb_list = map Some buckets \<and>
     set buckets \<subseteq> fst ` set BROAD_COLORS"
proof (induction rgb_list)
  case Nil
  show ?case by simp
next
  case (Cons rgb rest)
  then obtain bs where bs: "map closest_broad_color rest = map Some bs"
    "set bs \<subseteq> fst ` set BROAD_COLORS" by blast
  obtain name where n: "closest_broad_color rgb = Some name" "name \<in> fst ` set BROAD_COLORS"
    using closest_broad_color_name by blast
  show ?case
    by (rule exI [of _ "name # bs"]) (simp add: bs n)
qed

lemma palette_card: "card (fst ` set BROAD_COLORS) = 7"
  unfolding broad_names by simp

lemma emotion_sum:
  assumes sub: "set buckets \<subseteq> fst ` set BROAD_COLORS"
  shows "mapE (\<lambda>(color, cnt). bindE (warmth_lookup color) (\<lambda>w. Inr (w * int cnt)))
           (most_common 8 (Counter (map Some buckets)))
         = Inr (map (\<lambda>(color, cnt). warmth_weight (the color) * int cnt)
                  (most_common 8 (Counter (map Some buckets))))"
proof (rule mapE_Inr, rule ballI)
  fix x assume "x \<in> set (most_common 8 (Counter (map Some buckets)))"
  then have "x \<in> set (Counter (map Some buckets))"
    unfolding most_common_def by (auto dest: in_set_takeD)
  then obtain b where x: "x = (Some b, count_list (map Some buckets) (Some b))"
    and "b \<in> set buckets"
    unfolding Counter_set by auto
  then have "b \<in> fst ` set BROAD_COLORS" using sub by (simp add: subsetD)
  then have "warmth_lookup (Some b) = Inr (warmth_weight b)" by (rule warmth_lookup_palette)
  then show "(case x of (color, cnt) \<Rightarrow> bindE (warmth_lookup color) (\<lambda>w. Inr (w * int cnt)))
      = Inr (case x of (color, cnt) \<Rightarrow> warmth_weight (the color) * int cnt)"
    unfolding x by (simp add: bindE_def)
qed

lemma emotion_groups:
  assumes sub: "set buckets \<subseteq> fst ` set BROAD_COLORS"
  shows "length (most_common 8 (Counter (map Some buckets))) = card (set buckets)"
    and "sum_list (map (\<lambda>(color, cnt). warmth_weight (the color) * int cnt)
           (most_common 8 (Counter (map Some buckets))))
         = (\<Sum>b \<in> set buckets. warmth_weight b * int (count_list buckets b))"
proof -
  have "card (set buckets) \<le> card (fst ` set BROAD_COLORS)"
    using sub by (intro card_mono) simp_all
  then have le: "card (set buckets) \<le> 8" unfolding palette_card by simp
  have card: "card (set (map Some buckets)) = card (set buckets)"
    by (simp add: card_image)
  show "length (most_common 8 (Counter (map Some buckets))) = card (set buckets)"
    using le by (simp add: most_common_length Counter_length card del: set_map)
  have all: "most_common 8 (Counter (map Some buckets))
      = sort_key (\<lambda>(k, v). - int v) (Counter (map Some buckets))"
    using le by (intro most_common_all) (simp add: Counter_length card del: set_map)
  have "sum_list (map (\<lambda>(color, cnt). warmth_weight (the color) * int cnt)
           (most_common 8 (Counter (map Some buckets))))
      = sum_list (map (\<lambda>(color, cnt). warmth_weight (the color) * int cnt)
           (Counter (map Some buckets)))"
    unfolding all by (rule sum_list_sort_key)
  also have "\<dots> = (\<Sum>k \<in> set (map Some buckets).
      warmth_weight (the k) * int (count_list (map Some buckets) k))"
    by (simp only: Counter_sum prod.case)
  also have "\<dots> = (\<Sum>b \<in> set buckets. warmth_weight b * int (count_list buckets b))"
    by (simp add: sum.reindex count_list_map_Some)
  finally show "sum_list (map (\<lambda>(color, cnt). warmth_weight (the color) * int cnt)
           (most_common 8 (Counter (map Some buckets))))
         = (\<Sum>b \<in> set buckets. warmth_weight b * int (count_list buckets b))" .
qed

lemma spec_emotion_label_range:
  "spec_emotion_label score \<in>
     {''Energetic & Passionate'', ''Warm & Friendly'', ''Cool & Professional'',
      ''Calm & Trustworthy'', ''Balanced & Neutral''}"
  by (simp add: spec_emotion_label_def)

lemma emotion_chain:
  "(if s > 0.5 then Inr ''Energetic & Passionate''
    else if s > 0 then Inr ''Warm & Friendly''
    else if s < - 0.5 then Inr ''Cool & Professional''
    else if s < 0 then Inr ''Calm & Trustworthy''
    else Inr ''Balanced & Neutral'') = Inr (spec_emotion_label s)"
  unfolding spec_emotion_label_def by (simp only: if_distrib [of Inr])

text \<open>
  C4. Where the clustering returns a non-empty list of cluster colours, every cluster
  falls into one of the seven buckets, the lookup of its warmth in \<open>COLOR_WARMTH\<close> is
  the fixed weight (Red, Orange, Yellow +1; Green, Blue -1; White, Black 0), and
  \<open>analyze_emotion\<close> returns the label that the threshold bands give to the score:
  the sum over the distinct buckets present of the bucket's weight times its number of
  clusters, divided by the number of distinct buckets. The label is one of the five.
\<close>

theorem analyze_emotion_spec:
  assumes "extract_main_colors image_path = Inr rgb_list" and "rgb_list \<noteq> []"
  shows "\<exists>buckets.
     map closest_broad_color rgb_list = map Some buckets \<and>
     (\<forall>b \<in> set buckets. map_of COLOR_WARMTH b = Some (warmth_weight b)) \<and>
     analyze_emotion extract_main_colors image_path
       = Inr (spec_emotion_label (spec_warmth_score buckets)) \<and>
     spec_emotion_label (spec_warmth_score buckets) \<in>
       {''Energetic & Passionate'', ''Warm & Friendly'', ''Cool & Professional'',
        ''Calm & Trustworthy'', ''Balanced & Neutral''}"
proof -
  obtain buckets where bs: "map closest_broad_color rgb_list = map Some buckets"
    and sub: "set buckets \<subseteq> fst ` set BROAD_COLORS"
    using buckets_exist by blast
  have ne: "buckets \<noteq> []" using bs assms(2) by auto
  then have pos: "card (set buckets) \<noteq> 0" by simp
  have table: "\<forall>b \<in> set buckets. map_of COLOR_WARMTH b = Some (warmth_weight b)"
  proof
    fix b assume "b \<in> set buckets"
    then have "b \<in> fst ` set BROAD_COLORS" using sub by (rule rev_subsetD)
    then have "b \<in> {''Red'', ''Orange'', ''Yellow'', ''Green'', ''Blue'', ''White'', ''Black''}"
      unfolding broad_names .
    then show "map_of COLOR_WARMTH b = Some (warmth_weight b)"
      by (auto simp: COLOR_WARMTH_def warmth_weight_def)
  qed
  have len: "length (most_common 8 (Counter (map Some buckets))) \<noteq> 0"
    unfolding emotion_groups(1) [OF sub] using pos .
  have run: "analyze_emotion extract_main_colors image_path
       = Inr (spec_emotion_label (spec_warmth_score buckets))"
    unfolding analyze_emotion_def assms(1) Let_def
    apply (subst bindE_def)
    apply (simp only: sum.case bs)
    apply (subst emotion_sum [OF sub])
    apply (subst bindE_def)
    apply (simp only: sum.case len if_False emotion_groups [OF sub])
    apply (simp only: emotion_chain spec_warmth_score_def pos if_False)
    done
  show ?thesis
    using bs table run spec_emotion_label_range
    by (intro exI [of _ buckets] conjI)
qed

text \<open>
  Three clusters in Red, one in Blue and one in White: the score is (3 - 1 + 0) / 3,
  above 0.5.
\<close>

theorem analyze_emotion_spec_witness:
  "analyze_emotion Inr [(220, 20, 60), (200, 10, 50), (220, 20, 60), (30, 144, 255), (255, 255, 255)]
     = Inr (spec_emotion_label (spec_warmth_score [''Red'', ''Red'', ''Red'', ''Blue'', ''White''])) \<and>
   spec_emotion_label (spec_warmth_score [''Red'', ''Red'', ''Red'', ''Blue'', ''White''])
     = ''Energetic & Passionate''"
proof -
  let ?l = "[(220, 20, 60), (200, 10, 50), (220, 20, 60), (30, 144, 255), (255, 255, 255)] :: rgb list"
  have e: "(Inr :: rgb list \<Rightarrow> py_error + rgb list) ?l = Inr ?l" by simp
  have n: "?l \<noteq> []" by simp
  from analyze_emotion_spec [where extract_main_colors = Inr and image_path = ?l, OF e n] obtain buckets where
    h: "map closest_broad_color ?l = map Some buckets"
      "analyze_emotion Inr ?l = Inr (spec_emotion_label (spec_warmth_score buckets))"
    by blast
  have "map closest_broad_color ?l
      = map Some [''Red'', ''Red'', ''Red'', ''Blue'', ''White'']"
    by (simp add: closest_broad_color_def BROAD_COLORS_def distance_less_iff)
  with h(1) have "map Some buckets = map Some [''Red'', ''Red'', ''Red'', ''Blue'', ''White'']"
    by simp
  then have b: "buckets = [''Red'', ''Red'', ''Red'', ''Blue'', ''White'']"
    by (simp only: inj_map_eq_map [OF inj_Some])
  have "spec_emotion_label (spec_warmth_score [''Red'', ''Red'', ''Red'', ''Blue'', ''White''])
     = ''Energetic & Passionate''"
    by (simp add: spec_emotion_label_def spec_warmth_score_def warmth_weight_def)
  with h(2) b show ?thesis by simp
qed

section \<open>Results on the difference hash\<close>

lemma dhash_bits:
  assumes w: "img_width (convert_resize img (n + 1, n)) = n + 1"
    and h: "img_height (convert_resize img (n + 1, n)) = n"
  shows "dhash convert_resize img n =
     Inr (map (\<lambda>(y, x). if img_pixel (convert_resize img (n + 1, n)) x y
                            > img_pixel (convert_resize img (n + 1, n)) (x + 1) y
                         then CHR ''1'' else CHR ''0'')
            (List.product [0..<n] [0..<n]))"
proof -
  let ?g = "convert_resize img (n + 1, n)"
  have "mapE (\<lambda>(y, x). bindE (getpixel ?g (x, y)) (\<lambda>l.
                        bindE (getpixel ?g (x + 1, y)) (\<lambda>r. Inr (l > r))))
          (List.product [0..<n] [0..<n])
      = Inr (map (\<lambda>(y, x). img_pixel ?g x y > img_pixel ?g (x + 1) y)
               (List.product [0..<n] [0..<n]))"
    using w h by (intro mapE_Inr) (auto simp: getpixel_def bindE_def)
  then show ?thesis
    by (simp add: dhash_def Let_def bindE_def comp_def case_prod_unfold)
qed

text \<open>
  C2. Where the library returns the luminance image at the requested size, \<open>n + 1\<close>
  wide and \<open>n\<close> high, \<open>dhash\<close> returns a string of exactly \<open>n * n\<close> characters, 64 for
  the default \<open>n = 8\<close>; the character at position \<open>y * n + x\<close> (row-major) is 1 exactly
  when the pixel at \<open>(x, y)\<close> is strictly greater than its right neighbour at
  \<open>(x + 1, y)\<close>, and 0 otherwise. The hash is a function of the resized pixels alone: two
  images whose resized pixels agree have the same hash.
\<close>

theorem dhash_spec:
  assumes "img_width (convert_resize img (n + 1, n)) = n + 1"
    and "img_height (convert_resize img (n + 1, n)) = n"
  shows "\<exists>hash_value.
     dhash convert_resize img n = Inr hash_value \<and>
     length hash_value = n * n \<and>
     (n = 8 \<longrightarrow> length hash_value = 64) \<and>
     (\<forall>y < n. \<forall>x < n.
        hash_value ! (y * n + x) =
          (if img_pixel (convert_resize img (n + 1, n)) x y
                > img_pixel (convert_resize img (n + 1, n)) (x + 1) y
           then CHR ''1'' else CHR ''0'')) \<and>
     (\<forall>img2.
        img_width (convert_resize img2 (n + 1, n)) = n + 1 \<and>
        img_height (convert_resize img2 (n + 1, n)) = n \<and>
        (\<forall>y < n. \<forall>x \<le> n. img_pixel (convert_resize img2 (n + 1, n)) x y
                              = img_pixel (convert_resize img (n + 1, n)) x y)
        \<longrightarrow> dhash convert_resize img2 n = Inr hash_value)"
proof -
  let ?g = "convert_resize img (n + 1, n)"
  let ?bit = "\<lambda>g (y, x). if img_pixel g x y > img_pixel g (x + 1) y then CHR ''1'' else CHR ''0''"
  let ?h = "map (?bit ?g) (List.product [0..<n] [0..<n])"
  have run: "dhash convert_resize img n = Inr ?h"
    using assms by (rule dhash_bits)
  have len: "length ?h = n * n" by simp
  have nth: "?h ! (y * n + x) = ?bit ?g (y, x)" if "y < n" "x < n" for x y
  proof -
    have lt: "y * n + x < n * n"
    proof -
      have "y * n + x < y * n + n" using that(2) by simp
      also have "\<dots> = Suc y * n" by simp
      also have "\<dots> \<le> n * n" using that(1) by (metis Suc_leI mult_le_mono1)
      finally show ?thesis .
    qed
    have "List.product [0..<n] [0..<n] ! (y * n + x) = (y, x)"
      using lt that by (simp add: product_nth)
    then show ?thesis using lt by simp
  qed
  have same: "dhash convert_resize img2 n = Inr ?h"
    if w2: "img_width (convert_resize img2 (n + 1, n)) = n + 1"
      and h2: "img_height (convert_resize img2 (n + 1, n)) = n"
      and px: "\<forall>y < n. \<forall>x \<le> n. img_pixel (convert_resize img2 (n + 1, n)) x y
                              = img_pixel ?g x y"
    for img2
  proof -
    have "map (?bit (convert_resize img2 (n + 1, n))) (List.product [0..<n] [0..<n]) = ?h"
      using px by (intro map_cong) auto
    then show ?thesis
      using dhash_bits [where convert_resize = convert_resize and img = img2 and n = n, OF w2 h2]
      by simp
  qed
  have l8: "n = 8 \<longrightarrow> length ?h = 64" by simp
  have nth_all: "\<forall>y < n. \<forall>x < n. ?h ! (y * n + x) =
          (if img_pixel ?g x y > img_pixel ?g (x + 1) y then CHR ''1'' else CHR ''0'')"
    using nth by simp
  have same_all: "\<forall>img2.
        img_width (convert_resize img2 (n + 1, n)) = n + 1 \<and>
        img_height (convert_resize img2 (n + 1, n)) = n \<and>
        (\<forall>y < n. \<forall>x \<le> n. img_pixel (convert_resize img2 (n + 1, n)) x y = img_pixel ?g x y)
        \<longrightarrow> dhash convert_resize img2 n = Inr ?h"
    by (intro allI impI, elim conjE, rule same)
  from run len l8 nth_all same_all show ?thesis
    by (intro exI [of _ ?h] conjI)
qed

text \<open>
  A 9 by 8 image whose pixels fall from left to right in even rows and rise in odd
  rows: the 64 bits are eight 1s, then eight 0s, and so on.
\<close>

theorem dhash_spec_witness:
  "dhash (\<lambda>img sz. \<lparr>img_width = 9, img_height = 8,
             img_pixel = (\<lambda>x y. if even y then 100 - x else 100 + x)\<rparr>) () 8
     = Inr ''1111111100000000111111110000000011111111000000001111111100000000'' \<and>
   length ''1111111100000000111111110000000011111111000000001111111100000000'' = (64 :: nat)"
proof -
  let ?cr = "\<lambda>(img :: unit) (sz :: nat \<times> nat). \<lparr>img_width = 9, img_height = 8,
             img_pixel = (\<lambda>x y. if even y then 100 - x else 100 + x)\<rparr>"
  have w: "img_width (?cr () (8 + 1, 8)) = 8 + 1" by simp
  have h: "img_height (?cr () (8 + 1, 8)) = 8" by simp
  from dhash_spec [of ?cr "()" 8, OF w h] obtain hash_value where
    r: "dhash ?cr () 8 = Inr hash_value" and l: "length hash_value = 64"
    by auto
  have "dhash ?cr () 8
      = Inr ''1111111100000000111111110000000011111111000000001111111100000000''"
    by code_simp
  with r l show ?thesis by simp
qed

section \<open>Results on brands and the selection of domains\<close>

lemma split_on_first: "index (split_on sep s) 0 = Inr (takeWhile (\<lambda>c. \<not> sep c) s)"
proof (induction s)
  case Nil
  show ?case by (simp add: index_def)
next
  case (Cons c cs)
  then show ?case
    by (cases "split_on sep cs") (auto simp: index_def split: if_splits)
qed

lemma takeWhile_twice:
  "takeWhile P (takeWhile Q xs) = takeWhile (\<lambda>x. Q x \<and> P x) xs"
  by (induction xs) auto

lemma extract_brand_eq: "extract_brand domain = Inr (brand_of domain)"
proof -
  have "(\<lambda>c. \<not> c = CHR ''.'' \<and> \<not> (c = CHR ''-'' \<or> c = CHR ''_''))
      = (\<lambda>c. c \<notin> {CHR ''.'', CHR ''-'', CHR ''_''})"
    by auto
  then show ?thesis
    by (simp add: extract_brand_def brand_of_def bindE_def split_on_first takeWhile_twice)
qed

lemma group_domains_foldl:
  "group_domains domains brand_dict
     = Inr (foldl (\<lambda>bd d. dd_append (brand_of d) d bd) brand_dict domains)"
  by (induction domains arbitrary: brand_dict) (simp_all add: extract_brand_eq bindE_def)

lemma dd_append_keys:
  "map fst (dd_append k v bd) = (if k \<in> set (map fst bd) then map fst bd else map fst bd @ [k])"
  by (induction bd) (auto simp: rev_image_eqI)

lemma dd_append_nonempty:
  "list_all (\<lambda>e. snd e \<noteq> []) bd \<Longrightarrow> list_all (\<lambda>e. snd e \<noteq> []) (dd_append k v bd)"
  by (induction bd) auto

lemma dd_append_heads:
  "list_all (\<lambda>e. snd e \<noteq> []) bd \<Longrightarrow>
   map (\<lambda>e. hd (snd e)) (dd_append k v bd)
     = (if k \<in> set (map fst bd) then map (\<lambda>e. hd (snd e)) bd
        else map (\<lambda>e. hd (snd e)) bd @ [v])"
  by (induction bd) (auto simp: rev_image_eqI)

lemma foldl_dd_append:
  "list_all (\<lambda>e. snd e \<noteq> []) bd \<Longrightarrow>
   list_all (\<lambda>e. snd e \<noteq> []) (foldl (\<lambda>bd d. dd_append (f d) d bd) bd ds) \<and>
   map (\<lambda>e. hd (snd e)) (foldl (\<lambda>bd d. dd_append (f d) d bd) bd ds)
     = map (\<lambda>e. hd (snd e)) bd @ first_seen f ds (map fst bd)"
proof (induction ds arbitrary: bd)
  case Nil
  then show ?case by simp
next
  case (Cons d ds)
  have ne: "list_all (\<lambda>e. snd e \<noteq> []) (dd_append (f d) d bd)"
    using Cons.prems by (rule dd_append_nonempty)
  show ?case
    using Cons.IH [OF ne]
    by (simp add: dd_append_keys dd_append_heads [OF Cons.prems])
qed

lemma mapE_index0:
  "list_all (\<lambda>vs. vs \<noteq> []) vss \<Longrightarrow> mapE (\<lambda>vs. index vs 0) vss = Inr (map hd vss)"
  by (induction vss) (auto simp: index_def hd_conv_nth)

lemma select_domains_eq: "select_domains domains = Inr (first_seen brand_of domains [])"
proof -
  let ?bd = "foldl (\<lambda>bd d. dd_append (brand_of d) d bd) [] domains"
  have f: "list_all (\<lambda>e. snd e \<noteq> []) ?bd"
    "map (\<lambda>e. hd (snd e)) ?bd = first_seen brand_of domains []"
    using foldl_dd_append [of "[]" brand_of domains] by simp_all
  from f(1) have "list_all (\<lambda>vs. vs \<noteq> []) (map snd ?bd)"
    by (simp add: list_all_iff)
  then have "mapE (\<lambda>vs. index vs 0) (map snd ?bd) = Inr (map hd (map snd ?bd))"
    by (rule mapE_index0)
  with f(2) show ?thesis
    by (simp add: select_domains_def group_domains_foldl bindE_def comp_def)
qed

lemma first_seen_props:
  "distinct (map f (first_seen f xs seen)) \<and>
   set (map f (first_seen f xs seen)) = set (map f xs) - set seen \<and>
   set (first_seen f xs seen) \<subseteq> set xs"
proof (induction xs arbitrary: seen)
  case Nil
  show ?case by simp
next
  case (Cons x xs)
  show ?case
    using Cons.IH [of seen] Cons.IH [of "seen @ [f x]"] by auto
qed

lemma first_seen_first:
  "first_seen f xs seen = pre @ d # post \<Longrightarrow>
   \<exists>pre' post'. xs = pre' @ d # post' \<and> f d \<notin> f ` set pre' \<and> f d \<notin> set seen"
proof (induction xs arbitrary: seen pre)
  case Nil
  then show ?case by simp
next
  case (Cons x xs)
  note IH = Cons.IH
  show ?case
  proof (cases "f x \<in> set seen")
    case True
    with Cons.prems have "first_seen f xs seen = pre @ d # post" by simp
    from IH [OF this] obtain pre' post' where
      h: "xs = pre' @ d # post'" "f d \<notin> f ` set pre'" "f d \<notin> set seen" by blast
    have "x # xs = (x # pre') @ d # post'" using h(1) by simp
    moreover have "f d \<notin> f ` set (x # pre')" using h(2,3) True by auto
    ultimately show ?thesis using h(3) by blast
  next
    case False
    with Cons.prems have eq: "x # first_seen f xs (seen @ [f x]) = pre @ d # post" by simp
    show ?thesis
    proof (cases pre)
      case Nil
      with eq have "x = d" by simp
      then have "x # xs = [] @ d # xs" by simp
      moreover have "f d \<notin> f ` set []" by simp
      moreover have "f d \<notin> set seen" using False \<open>x = d\<close> by simp
      ultimately show ?thesis by blast
    next
      case (Cons a pre2)
      with eq have "first_seen f xs (seen @ [f x]) = pre2 @ d # post" by auto
      from IH [OF this] obtain pre' post' where
        h: "xs = pre' @ d # post'" "f d \<notin> f ` set pre'" "f d \<notin> set (seen @ [f x])" by blast
      have "x # xs = (x # pre') @ d # post'" using h(1) by simp
      moreover have "f d \<notin> f ` set (x # pre')" using h(2,3) by auto
      moreover have "f d \<notin> set seen" using h(3) by simp
      ultimately show ?thesis by blast
    qed
  qed
qed

lemma brand_of_shape:
  "set (brand_of domain) \<inter> {CHR ''.'', CHR ''-'', CHR ''_''} = {} \<and>
   (\<exists>rest. domain = brand_of domain @ rest \<and>
      (rest = [] \<or> hd rest \<in> {CHR ''.'', CHR ''-'', CHR ''_''}))"
proof -
  let ?P = "\<lambda>c. c \<notin> {CHR ''.'', CHR ''-'', CHR ''_''}"
  have a: "set (takeWhile ?P domain) \<inter> {CHR ''.'', CHR ''-'', CHR ''_''} = {}"
    using set_takeWhileD [of _ ?P domain] by blast
  have b: "domain = takeWhile ?P domain @ dropWhile ?P domain" by simp
  have c: "dropWhile ?P domain = [] \<or> hd (dropWhile ?P domain) \<in> {CHR ''.'', CHR ''-'', CHR ''_''}"
    using hd_dropWhile [of ?P domain] by blast
  from a b c show ?thesis unfolding brand_of_def by blast
qed

lemma takeWhile_stops:
  "\<not> P y \<Longrightarrow> takeWhile P (xs @ y # ys) = takeWhile P xs"
  by (induction xs) auto

lemma strip_last_label:
  "CHR ''.'' \<notin> set b \<Longrightarrow> strip_top_level_suffix (a @ CHR ''.'' # b) = a"
proof -
  assume b: "CHR ''.'' \<notin> set b"
  have "dropWhile (\<lambda>c. c \<noteq> CHR ''.'') (rev b @ CHR ''.'' # rev a) = CHR ''.'' # rev a"
    using b by (subst dropWhile_append2) auto
  then show ?thesis by (simp add: strip_top_level_suffix_def)
qed

lemma brand_single_dot:
  assumes "length (filter (\<lambda>c. c = CHR ''.'') domain) \<le> 1"
  shows "brand_of domain = spec_brand domain"
proof (cases "CHR ''.'' \<in> set domain")
  case False
  then have "takeWhile (\<lambda>c. c \<notin> {CHR ''.'', CHR ''-'', CHR ''_''}) domain
      = takeWhile (\<lambda>c. c \<noteq> CHR ''-'' \<and> c \<noteq> CHR ''_'') domain"
    by (intro takeWhile_cong) auto
  with False show ?thesis
    by (simp add: brand_of_def spec_brand_def strip_top_level_suffix_def)
next
  case True
  then obtain a b where d: "domain = a @ CHR ''.'' # b" and a: "CHR ''.'' \<notin> set a"
    by (meson split_list_first)
  have b: "CHR ''.'' \<notin> set b"
  proof
    assume "CHR ''.'' \<in> set b"
    then have "filter (\<lambda>c. c = CHR ''.'') b \<noteq> []" by (simp add: filter_empty_conv)
    then have "1 \<le> length (filter (\<lambda>c. c = CHR ''.'') b)"
      by (cases "filter (\<lambda>c. c = CHR ''.'') b") simp_all
    with assms show False unfolding d by simp
  qed
  have "takeWhile (\<lambda>c. c \<notin> {CHR ''.'', CHR ''-'', CHR ''_''}) domain
      = takeWhile (\<lambda>c. c \<notin> {CHR ''.'', CHR ''-'', CHR ''_''}) a"
    unfolding d by (rule takeWhile_stops) simp
  also have "\<dots> = takeWhile (\<lambda>c. c \<noteq> CHR ''-'' \<and> c \<noteq> CHR ''_'') a"
    using a by (intro takeWhile_cong) auto
  finally show ?thesis
    unfolding brand_of_def spec_brand_def d strip_last_label [OF b] .
qed

text \<open>
  On the domain shop.example.com the code returns shop, where removing the top-level
  suffix leaves shop.example; on www.foo-bar.co.uk it returns www. The logos of
  foo-bar.com and foobaz.net are the files foo-bar.png and foobaz.png, which agree on
  their first three characters: with a score of 60 the near-duplicate phase moves
  foobaz.png out of the folder.
\<close>

theorem brand_selection_counterexample:
  "extract_brand ''shop.example.com'' = Inr ''shop'' \<and>
   spec_brand ''shop.example.com'' = ''shop.example'' \<and>
   extract_brand ''www.foo-bar.co.uk'' = Inr ''www'' \<and>
   spec_brand ''www.foo-bar.co.uk'' = ''www.foo'' \<and>
   logo_path_of ''logos'' ''foo-bar.com'' = ''logos/foo-bar.png'' \<and>
   logo_path_of ''logos'' ''foobaz.net'' = ''logos/foobaz.png'' \<and>
   take 3 ''foo-bar.png'' = take 3 ''foobaz.png'' \<and>
   move_similar_logos Some foo_correl ''logos'' [''foo-bar.png'', ''foobaz.png''] foo_disk
     = Inr (foo_disk(''logos/foobaz.png'' := None, ''duplicates/foobaz.png'' \<mapsto> 2))"
proof -
  have a: "extract_brand ''shop.example.com'' = Inr ''shop''" by code_simp
  have b: "spec_brand ''shop.example.com'' = ''shop.example''" by code_simp
  have c: "extract_brand ''www.foo-bar.co.uk'' = Inr ''www''" by code_simp
  have d: "spec_brand ''www.foo-bar.co.uk'' = ''www.foo''" by code_simp
  have e: "logo_path_of ''logos'' ''foo-bar.com'' = ''logos/foo-bar.png''" by code_simp
  have f: "logo_path_of ''logos'' ''foobaz.net'' = ''logos/foobaz.png''" by code_simp
  have g: "take 3 ''foo-bar.png'' = take 3 ''foobaz.png''" by simp
  have h: "move_similar_logos Some foo_correl ''logos'' [''foo-bar.png'', ''foobaz.png''] foo_disk
     = Inr (foo_disk(''logos/foobaz.png'' := None, ''duplicates/foobaz.png'' \<mapsto> 2))"
    by (simp add: move_similar_logos_def check_similarity_def check_similarity_try_def
        calculate_histogram_similarity_def cv2_imread_def shutil_move_def bindE_def
        foo_disk_def foo_correl_def path_join_def)
  from a b c d e f g h show ?thesis by (intro conjI)
qed

text \<open>
  C5, as amended. \<open>extract_brand\<close> never raises and returns the part of the domain
  before its first dot, dash or underscore: a prefix of the domain that holds none of
  the three characters and is followed by one of them or by the end of the domain. On a
  domain with at most one dot this is the domain without its top-level suffix and
  without any dash- or underscore-separated qualifier; on a domain with more labels it
  is taken from the first label alone. The domains foo-bar.com and foobaz.net have the
  brands foo and foobaz and both are selected for fetching. For every list of domains
  the selection never raises, selects only listed domains, one for each brand observed
  and no two of the same brand, and each selected domain is the first of the list with
  its brand.
\<close>

theorem brand_selection:
  "extract_brand domain = Inr (brand_of domain) \<and>
   set (brand_of domain) \<inter> {CHR ''.'', CHR ''-'', CHR ''_''} = {} \<and>
   (\<exists>rest. domain = brand_of domain @ rest \<and>
      (rest = [] \<or> hd rest \<in> {CHR ''.'', CHR ''-'', CHR ''_''})) \<and>
   (length (filter (\<lambda>c. c = CHR ''.'') domain) \<le> 1 \<longrightarrow>
      extract_brand domain = Inr (spec_brand domain)) \<and>
   extract_brand ''foo-bar.com'' = Inr ''foo'' \<and>
   extract_brand ''foobaz.net'' = Inr ''foobaz'' \<and>
   select_domains [''foo-bar.com'', ''foobaz.net''] = Inr [''foo-bar.com'', ''foobaz.net''] \<and>
   (\<exists>selected.
      select_domains domains = Inr selected \<and>
      distinct (map brand_of selected) \<and>
      set selected \<subseteq> set domains \<and>
      brand_of ` set selected = brand_of ` set domains \<and>
      (\<forall>d \<in> set selected. \<exists>pre post.
         domains = pre @ d # post \<and> brand_of d \<notin> brand_of ` set pre))"
proof -
  let ?sel = "first_seen brand_of domains []"
  have p: "distinct (map brand_of ?sel)" "set ?sel \<subseteq> set domains"
    "brand_of ` set ?sel = brand_of ` set domains"
    using first_seen_props [of brand_of domains "[]"] by simp_all
  have q: "\<forall>d \<in> set ?sel. \<exists>pre post. domains = pre @ d # post \<and> brand_of d \<notin> brand_of ` set pre"
  proof
    fix d assume "d \<in> set ?sel"
    then obtain pre post where "?sel = pre @ d # post" by (meson split_list)
    from first_seen_first [OF this]
    show "\<exists>pre post. domains = pre @ d # post \<and> brand_of d \<notin> brand_of ` set pre" by blast
  qed
  have sel: "\<exists>selected.
      select_domains domains = Inr selected \<and>
      distinct (map brand_of selected) \<and>
      set selected \<subseteq> set domains \<and>
      brand_of ` set selected = brand_of ` set domains \<and>
      (\<forall>d \<in> set selected. \<exists>pre post.
         domains = pre @ d # post \<and> brand_of d \<notin> brand_of ` set pre)"
    using select_domains_eq [of domains] p q by (intro exI [of _ ?sel] conjI)
  have one: "length (filter (\<lambda>c. c = CHR ''.'') domain) \<le> 1 \<longrightarrow>
      extract_brand domain = Inr (spec_brand domain)"
    by (simp add: extract_brand_eq brand_single_dot)
  have e1: "extract_brand ''foo-bar.com'' = Inr ''foo''"
    by (simp add: extract_brand_eq brand_of_def)
  have e2: "extract_brand ''foobaz.net'' = Inr ''foobaz''"
    by (simp add: extract_brand_eq brand_of_def)
  have e3: "select_domains [''foo-bar.com'', ''foobaz.net'']
      = Inr [''foo-bar.com'', ''foobaz.net'']"
    by (simp add: select_domains_eq brand_of_def)
  from extract_brand_eq [of domain] brand_of_shape [of domain] one e1 e2 e3 sel
  show ?thesis by (intro conjI) simp_all
qed

text \<open>
  Of three domains, the third shares the brand foo with the first: the first two are
  selected, in the order of the list. The third has one dot, and its brand is what the
  specification's words give.
\<close>

theorem brand_selection_witness:
  "select_domains [''foo-bar.com'', ''foobaz.net'', ''foo_shop.org'']
     = Inr [''foo-bar.com'', ''foobaz.net''] \<and>
   extract_brand ''foo_shop.org'' = Inr ''foo'' \<and>
   spec_brand ''foo_shop.org'' = ''foo'' \<and>
   distinct (map brand_of [''foo-bar.com'', ''foobaz.net''])"
proof -
  let ?ds = "[''foo-bar.com'', ''foobaz.net'', ''foo_shop.org'']"
  have dots: "length (filter (\<lambda>c. c = CHR ''.'') ''foo_shop.org'') \<le> 1" by simp
  from brand_selection [of "''foo_shop.org''" ?ds] dots obtain selected where
    b: "extract_brand ''foo_shop.org'' = Inr (brand_of ''foo_shop.org'')"
    and o: "extract_brand ''foo_shop.org'' = Inr (spec_brand ''foo_shop.org'')"
    and s: "select_domains ?ds = Inr selected" "distinct (map brand_of selected)"
    by auto
  have "select_domains ?ds = Inr [''foo-bar.com'', ''foobaz.net'']"
    by code_simp
  with s have "selected = [''foo-bar.com'', ''foobaz.net'']" by simp
  moreover have "brand_of ''foo_shop.org'' = ''foo''" by (simp add: brand_of_def)
  moreover have "spec_brand ''foo_shop.org'' = ''foo''" using b o calculation(2) by simp
  ultimately show ?thesis using b s by simp
qed

section \<open>Results on the exact duplicates\<close>

lemma stem_eq:
  "index (split_on (\<lambda>c. c = CHR ''.'') domain) 0 = Inr (takeWhile (\<lambda>c. c \<noteq> CHR ''.'') domain)"
  by (simp add: split_on_first)

lemma download_logo_eq:
  "download_logo fetched domain d =
     (case fetched domain of None \<Rightarrow> d | Some bytes \<Rightarrow> d(logo_path_of ''logos'' domain \<mapsto> bytes))"
  by (simp add: download_logo_def stem_eq logo_path_of_def split: option.splits)

lemma download_logo_other:
  "p \<noteq> logo_path_of ''logos'' domain \<Longrightarrow> download_logo fetched domain d p = d p"
  by (simp add: download_logo_eq split: option.splits)

text \<open>The four outcomes of one task.\<close>

lemma process_logo_absent:
  assumes "download_logo fetched domain (disk st) (logo_path_of output_folder domain) = None"
  shows "process_logo fetched image_open convert_resize domain output_folder st
     = Inr (st\<lparr>disk := download_logo fetched domain (disk st)\<rparr>)"
  using assms by (simp add: process_logo_def stem_eq bindE_def logo_path_of_def)

lemma process_logo_corrupt:
  assumes "download_logo fetched domain (disk st) (logo_path_of output_folder domain) = Some bytes"
    and "file_hash image_open convert_resize bytes = Inl e"
  shows "process_logo fetched image_open convert_resize domain output_folder st
     = Inr (st\<lparr>disk := (download_logo fetched domain (disk st))
                 (logo_path_of output_folder domain := None)\<rparr>)"
  using assms
  by (auto simp: process_logo_def stem_eq bindE_def logo_path_of_def file_hash_def os_remove_def
      split: sum.splits)

lemma process_logo_duplicate:
  assumes "download_logo fetched domain (disk st) (logo_path_of output_folder domain) = Some bytes"
    and "file_hash image_open convert_resize bytes = Inr h"
    and "hashes st h \<noteq> None"
  shows "process_logo fetched image_open convert_resize domain output_folder st
     = Inr (st\<lparr>disk := (download_logo fetched domain (disk st))
                 (logo_path_of output_folder domain := None)\<rparr>)"
  using assms
  by (auto simp: process_logo_def stem_eq bindE_def logo_path_of_def file_hash_def os_remove_def
      split: sum.splits)

lemma process_logo_first:
  assumes "download_logo fetched domain (disk st) (logo_path_of output_folder domain) = Some bytes"
    and "file_hash image_open convert_resize bytes = Inr h"
    and "hashes st h = None"
  shows "process_logo fetched image_open convert_resize domain output_folder st
     = Inr (st\<lparr>disk := download_logo fetched domain (disk st),
               hashes := (hashes st)(h \<mapsto> logo_path_of output_folder domain)\<rparr>)"
  using assms
  by (auto simp: process_logo_def stem_eq bindE_def logo_path_of_def file_hash_def os_remove_def
      split: sum.splits)

lemma process_logo_cases:
  obtains
    (absent) "download_logo fetched domain (disk st) (logo_path_of output_folder domain) = None"
      "process_logo fetched image_open convert_resize domain output_folder st
         = Inr (st\<lparr>disk := download_logo fetched domain (disk st)\<rparr>)"
  | (removed) "download_logo fetched domain (disk st) (logo_path_of output_folder domain) \<noteq> None"
      "process_logo fetched image_open convert_resize domain output_folder st
         = Inr (st\<lparr>disk := (download_logo fetched domain (disk st))
                 (logo_path_of output_folder domain := None)\<rparr>)"
  | (first) bytes h where
      "download_logo fetched domain (disk st) (logo_path_of output_folder domain) = Some bytes"
      "file_hash image_open convert_resize bytes = Inr h" "hashes st h = None"
      "process_logo fetched image_open convert_resize domain output_folder st
         = Inr (st\<lparr>disk := download_logo fetched domain (disk st),
               hashes := (hashes st)(h \<mapsto> logo_path_of output_folder domain)\<rparr>)"
proof (cases "download_logo fetched domain (disk st) (logo_path_of output_folder domain)")
  case None
  then show ?thesis using absent process_logo_absent by blast
next
  case (Some bytes)
  show ?thesis
  proof (cases "file_hash image_open convert_resize bytes")
    case (Inl e)
    from process_logo_corrupt [OF Some Inl] Some show ?thesis using removed by simp
  next
    case (Inr h)
    show ?thesis
    proof (cases "hashes st h")
      case None
      from process_logo_first [OF Some Inr None] Some Inr None show ?thesis using first by blast
    next
      case (Some q)
      then have "hashes st h \<noteq> None" by simp
      from process_logo_duplicate [OF \<open>download_logo fetched domain (disk st)
          (logo_path_of output_folder domain) = Some bytes\<close> Inr this]
      show ?thesis using removed \<open>download_logo fetched domain (disk st)
          (logo_path_of output_folder domain) = Some bytes\<close> by simp
    qed
  qed
qed

lemma holder_inv_shrink:
  assumes inv: "holder_inv image_open convert_resize P st"
    and reg: "hashes st' = hashes st"
    and files: "\<And>p. p \<in> P' \<Longrightarrow> disk st' p = None \<or> (p \<in> P \<and> disk st' p = disk st p)"
  shows "holder_inv image_open convert_resize P' st'"
  unfolding holder_inv_def
proof (intro ballI allI impI)
  fix p b assume p: "p \<in> P'" and b: "disk st' p = Some b"
  from files [OF p] b have "p \<in> P" "disk st p = Some b" by auto
  with inv obtain h where "file_hash image_open convert_resize b = Inr h" "hashes st h = Some p"
    unfolding holder_inv_def by blast
  with reg show "\<exists>h. file_hash image_open convert_resize b = Inr h \<and> hashes st' h = Some p"
    by auto
qed

lemma process_logo_step:
  assumes inv: "holder_inv image_open convert_resize P st"
  shows "\<exists>st'. process_logo fetched image_open convert_resize domain ''logos'' st = Inr st' \<and>
     (\<forall>h q. hashes st h = Some q \<longrightarrow> hashes st' h = Some q) \<and>
     holder_inv image_open convert_resize (insert (logo_path_of ''logos'' domain) P) st'"
proof (cases rule: process_logo_cases
    [of fetched domain st "''logos''" image_open convert_resize])
  case absent
  let ?st' = "st\<lparr>disk := download_logo fetched domain (disk st)\<rparr>"
  have "holder_inv image_open convert_resize (insert (logo_path_of ''logos'' domain) P) ?st'"
  proof (rule holder_inv_shrink [OF inv])
    show "hashes ?st' = hashes st" by simp
  next
    fix p assume "p \<in> insert (logo_path_of ''logos'' domain) P"
    then show "disk ?st' p = None \<or> (p \<in> P \<and> disk ?st' p = disk st p)"
      using absent(1) download_logo_other [of p domain fetched "disk st"]
      by (cases "p = logo_path_of ''logos'' domain") auto
  qed
  then show ?thesis unfolding absent(2) by simp
next
  case removed
  let ?st' = "st\<lparr>disk := (download_logo fetched domain (disk st))
                 (logo_path_of ''logos'' domain := None)\<rparr>"
  have "holder_inv image_open convert_resize (insert (logo_path_of ''logos'' domain) P) ?st'"
  proof (rule holder_inv_shrink [OF inv])
    show "hashes ?st' = hashes st" by simp
  next
    fix p assume "p \<in> insert (logo_path_of ''logos'' domain) P"
    then show "disk ?st' p = None \<or> (p \<in> P \<and> disk ?st' p = disk st p)"
      using download_logo_other [of p domain fetched "disk st"]
      by (cases "p = logo_path_of ''logos'' domain") auto
  qed
  then show ?thesis unfolding removed(2) by simp
next
  case (first bytes h)
  have other: "download_logo fetched domain (disk st) p = disk st p"
    if "p \<noteq> logo_path_of ''logos'' domain" for p
    using that by (rule download_logo_other)
  let ?st' = "st\<lparr>disk := download_logo fetched domain (disk st),
               hashes := (hashes st)(h \<mapsto> logo_path_of ''logos'' domain)\<rparr>"
  have mono: "\<forall>h' q. hashes st h' = Some q \<longrightarrow> hashes ?st' h' = Some q"
    using first(3) by auto
  have "holder_inv image_open convert_resize (insert (logo_path_of ''logos'' domain) P) ?st'"
    unfolding holder_inv_def
  proof (intro ballI allI impI)
    fix p b assume p: "p \<in> insert (logo_path_of ''logos'' domain) P"
      and b: "disk ?st' p = Some b"
    show "\<exists>h'. file_hash image_open convert_resize b = Inr h' \<and> hashes ?st' h' = Some p"
    proof (cases "p = logo_path_of ''logos'' domain")
      case True
      with b first(1) have "b = bytes" by simp
      with first(2) True show ?thesis by auto
    next
      case False
      with p have "p \<in> P" by simp
      moreover have "disk st p = Some b" using b other [OF False] by simp
      ultimately obtain h' where h': "file_hash image_open convert_resize b = Inr h'"
        "hashes st h' = Some p"
        using inv unfolding holder_inv_def by blast
      with mono show ?thesis by blast
    qed
  qed
  with mono show ?thesis unfolding first(4) by blast
qed

lemma process_all_run:
  "holder_inv image_open convert_resize P st \<Longrightarrow>
   \<exists>st'. process_all fetched image_open convert_resize domains st = Inr st' \<and>
     (\<forall>h q. hashes st h = Some q \<longrightarrow> hashes st' h = Some q) \<and>
     holder_inv image_open convert_resize (logo_path_of ''logos'' ` set domains \<union> P) st'"
proof (induction domains arbitrary: P st)
  case Nil
  then show ?case by simp
next
  case (Cons domain rest)
  from process_logo_step [OF Cons.prems, of fetched domain] obtain st1 where
    s: "process_logo fetched image_open convert_resize domain ''logos'' st = Inr st1"
      "\<forall>h q. hashes st h = Some q \<longrightarrow> hashes st1 h = Some q"
      "holder_inv image_open convert_resize (insert (logo_path_of ''logos'' domain) P) st1"
    by blast
  from Cons.IH [OF s(3)] obtain st' where
    r: "process_all fetched image_open convert_resize rest st1 = Inr st'"
      "\<forall>h q. hashes st1 h = Some q \<longrightarrow> hashes st' h = Some q"
      "holder_inv image_open convert_resize
         (logo_path_of ''logos'' ` set rest \<union> insert (logo_path_of ''logos'' domain) P) st'"
    by blast
  have "logo_path_of ''logos'' ` set rest \<union> insert (logo_path_of ''logos'' domain) P
      = logo_path_of ''logos'' ` set (domain # rest) \<union> P" by auto
  with r(3) have "holder_inv image_open convert_resize
      (logo_path_of ''logos'' ` set (domain # rest) \<union> P) st'" by simp
  moreover have "process_all fetched image_open convert_resize (domain # rest) st = Inr st'"
    using s(1) r(1) by (simp add: bindE_def)
  moreover have "\<forall>h q. hashes st h = Some q \<longrightarrow> hashes st' h = Some q"
    using s(2) r(2) by blast
  ultimately show ?case by blast
qed

lemma holder_inv_empty: "holder_inv image_open convert_resize {} st"
  by (simp add: holder_inv_def)

lemma process_logo_hashed:
  assumes "download_logo fetched domain (disk st) (logo_path_of output_folder domain) = Some bytes"
    and "file_hash image_open convert_resize bytes = Inr h"
  shows "process_logo fetched image_open convert_resize domain output_folder st =
       Inr (if hashes st h \<noteq> None
            then st\<lparr>disk := (download_logo fetched domain (disk st))
                      (logo_path_of output_folder domain := None)\<rparr>
            else st\<lparr>disk := download_logo fetched domain (disk st),
                    hashes := (hashes st)(h \<mapsto> logo_path_of output_folder domain)\<rparr>)"
proof (cases "hashes st h")
  case None
  with process_logo_first [OF assms None] show ?thesis by simp
next
  case (Some q)
  then have "hashes st h \<noteq> None" by simp
  with process_logo_duplicate [OF assms this] show ?thesis by simp
qed

text \<open>
  C3. One task of the exact-dedup phase, on a file that was fetched and hashed: where
  the hash is already a key of the registry the file is deleted and the registry is
  unchanged; where it is not, the file stays and the registry maps the hash to this
  file's path. A run of the tasks over any list of domains, from any state, never raises;
  it never replaces an entry of the registry, so a hash keeps the first path recorded
  for it; every processed file left on disk hashes to a value that the registry maps to
  that file; hence two processed files left on disk with the same hash are one file.
\<close>

theorem exact_dedup:
  "(\<forall>bytes h.
      download_logo fetched domain (disk st) (logo_path_of output_folder domain) = Some bytes \<and>
      file_hash image_open convert_resize bytes = Inr h \<longrightarrow>
      process_logo fetched image_open convert_resize domain output_folder st =
        Inr (if hashes st h \<noteq> None
             then st\<lparr>disk := (download_logo fetched domain (disk st))
                       (logo_path_of output_folder domain := None)\<rparr>
             else st\<lparr>disk := download_logo fetched domain (disk st),
                     hashes := (hashes st)(h \<mapsto> logo_path_of output_folder domain)\<rparr>)) \<and>
   (\<exists>st'.
      process_all fetched image_open convert_resize domains st = Inr st' \<and>
      (\<forall>h q. hashes st h = Some q \<longrightarrow> hashes st' h = Some q) \<and>
      (\<forall>d \<in> set domains. \<forall>bytes.
         disk st' (logo_path_of ''logos'' d) = Some bytes \<longrightarrow>
         (\<exists>h. file_hash image_open convert_resize bytes = Inr h \<and>
              hashes st' h = Some (logo_path_of ''logos'' d))) \<and>
      (\<forall>d1 \<in> set domains. \<forall>d2 \<in> set domains. \<forall>b1 b2 h.
         disk st' (logo_path_of ''logos'' d1) = Some b1 \<and>
         disk st' (logo_path_of ''logos'' d2) = Some b2 \<and>
         file_hash image_open convert_resize b1 = Inr h \<and>
         file_hash image_open convert_resize b2 = Inr h \<longrightarrow>
         logo_path_of ''logos'' d1 = logo_path_of ''logos'' d2))"
proof (rule conjI)
  show "\<forall>bytes h.
      download_logo fetched domain (disk st) (logo_path_of output_folder domain) = Some bytes \<and>
      file_hash image_open convert_resize bytes = Inr h \<longrightarrow>
      process_logo fetched image_open convert_resize domain output_folder st =
        Inr (if hashes st h \<noteq> None
             then st\<lparr>disk := (download_logo fetched domain (disk st))
                       (logo_path_of output_folder domain := None)\<rparr>
             else st\<lparr>disk := download_logo fetched domain (disk st),
                     hashes := (hashes st)(h \<mapsto> logo_path_of output_folder domain)\<rparr>)"
    by (intro allI impI, elim conjE, rule process_logo_hashed)
next
  from process_all_run [where P = "{}" and st = st and fetched = fetched and domains = domains
      and image_open = image_open and convert_resize = convert_resize, OF holder_inv_empty]
  obtain st' where
    r: "process_all fetched image_open convert_resize domains st = Inr st'"
      "\<forall>h q. hashes st h = Some q \<longrightarrow> hashes st' h = Some q"
      "holder_inv image_open convert_resize (logo_path_of ''logos'' ` set domains) st'"
    by auto
  have k: "\<exists>h. file_hash image_open convert_resize bytes = Inr h \<and>
              hashes st' h = Some (logo_path_of ''logos'' d)"
    if "d \<in> set domains" "disk st' (logo_path_of ''logos'' d) = Some bytes" for d bytes
    using r(3) that unfolding holder_inv_def by blast
  have u: "logo_path_of ''logos'' d1 = logo_path_of ''logos'' d2"
    if "d1 \<in> set domains" "d2 \<in> set domains"
      "disk st' (logo_path_of ''logos'' d1) = Some b1"
      "disk st' (logo_path_of ''logos'' d2) = Some b2"
      "file_hash image_open convert_resize b1 = Inr h"
      "file_hash image_open convert_resize b2 = Inr h" for d1 d2 b1 b2 h
  proof -
    from k [OF that(1,3)] that(5) have "hashes st' h = Some (logo_path_of ''logos'' d1)" by auto
    moreover from k [OF that(2,4)] that(6)
    have "hashes st' h = Some (logo_path_of ''logos'' d2)" by auto
    ultimately show ?thesis by simp
  qed
  show "\<exists>st'.
      process_all fetched image_open convert_resize domains st = Inr st' \<and>
      (\<forall>h q. hashes st h = Some q \<longrightarrow> hashes st' h = Some q) \<and>
      (\<forall>d \<in> set domains. \<forall>bytes.
         disk st' (logo_path_of ''logos'' d) = Some bytes \<longrightarrow>
         (\<exists>h. file_hash image_open convert_resize bytes = Inr h \<and>
              hashes st' h = Some (logo_path_of ''logos'' d))) \<and>
      (\<forall>d1 \<in> set domains. \<forall>d2 \<in> set domains. \<forall>b1 b2 h.
         disk st' (logo_path_of ''logos'' d1) = Some b1 \<and>
         disk st' (logo_path_of ''logos'' d2) = Some b2 \<and>
         file_hash image_open convert_resize b1 = Inr h \<and>
         file_hash image_open convert_resize b2 = Inr h \<longrightarrow>
         logo_path_of ''logos'' d1 = logo_path_of ''logos'' d2)"
    using r(1,2) k u by (intro exI [of _ st'] conjI) blast+
qed

text \<open>
  Three domains; the first two fetch the same image, the third another one. The second
  file is deleted, the other two stay, each the holder of its hash.
\<close>

theorem exact_dedup_witness:
  "\<exists>st'.
     process_all
       (\<lambda>d. if d = ''a.com'' \<or> d = ''b.com'' then Some (1 :: nat)
             else if d = ''c.com'' then Some 2 else None)
       Inr
       (\<lambda>img sz. \<lparr>img_width = 9, img_height = 8,
                   img_pixel = (\<lambda>x y. if img = 1 then x else 100 - x)\<rparr>)
       [''a.com'', ''b.com'', ''c.com'']
       \<lparr>hashes = Map.empty, disk = Map.empty\<rparr> = Inr st' \<and>
     disk st' ''logos/a.png'' = Some 1 \<and>
     disk st' ''logos/b.png'' = None \<and>
     disk st' ''logos/c.png'' = Some 2 \<and>
     hashes st' (replicate 64 CHR ''0'') = Some ''logos/a.png'' \<and>
     hashes st' (replicate 64 CHR ''1'') = Some ''logos/c.png''"
proof -
  let ?F = "\<lambda>d. if d = ''a.com'' \<or> d = ''b.com'' then Some (1 :: nat)
             else if d = ''c.com'' then Some 2 else None"
  let ?C = "\<lambda>(img :: nat) (sz :: nat \<times> nat). \<lparr>img_width = 9, img_height = 8,
                   img_pixel = (\<lambda>x y. if img = 1 then x else 100 - x)\<rparr>"
  let ?st = "\<lparr>hashes = Map.empty, disk = (Map.empty :: string \<rightharpoonup> nat)\<rparr>"
  from exact_dedup [where fetched = ?F and domain = "''a.com''" and st = ?st
      and output_folder = "''logos''" and image_open = Inr and convert_resize = ?C
      and domains = "[''a.com'', ''b.com'', ''c.com'']"]
  obtain st' where
    r: "process_all ?F Inr ?C [''a.com'', ''b.com'', ''c.com''] ?st = Inr st'"
    by blast
  have "case process_all ?F Inr ?C [''a.com'', ''b.com'', ''c.com''] ?st of
      Inl e \<Rightarrow> False
    | Inr st' \<Rightarrow>
        disk st' ''logos/a.png'' = Some 1 \<and>
        disk st' ''logos/b.png'' = None \<and>
        disk st' ''logos/c.png'' = Some 2 \<and>
        hashes st' (replicate 64 CHR ''0'') = Some ''logos/a.png'' \<and>
        hashes st' (replicate 64 CHR ''1'') = Some ''logos/c.png''"
    by code_simp
  with r show ?thesis by simp
qed

section \<open>Results on the near duplicates\<close>

lemma calc_Inr_files:
  "calculate_histogram_similarity imdecode hist_correl d p1 p2 = Inr s \<Longrightarrow>
   d p1 \<noteq> None \<and> d p2 \<noteq> None"
  by (auto simp: calculate_histogram_similarity_def cv2_imread_def Let_def split: option.splits)

lemma calc_vanished:
  "d p1 = None \<or> d p2 = None \<Longrightarrow>
   calculate_histogram_similarity imdecode hist_correl d p1 p2 = Inl FileNotFoundError"
  by (auto simp: calculate_histogram_similarity_def cv2_imread_def Let_def split: option.splits)

text \<open>
  The last line of \<open>calculate_histogram_similarity\<close> sends the correlation 1 to the
  score 100.
\<close>

lemma similarity_of_correlation_one:
  assumes "cv2_imread imdecode d image1 = Some m1" and "cv2_imread imdecode d image2 = Some m2"
    and "hist_correl m1 m2 = 1"
  shows "calculate_histogram_similarity imdecode hist_correl d image1 image2 = Inr 100"
  using assms by (simp add: calculate_histogram_similarity_def)

lemma check_similarity_scored:
  assumes "calculate_histogram_similarity imdecode hist_correl d
      (path_join output_folder image1) (path_join output_folder image2) = Inr s"
  shows "\<exists>bytes. d (path_join output_folder image2) = Some bytes \<and>
     check_similarity imdecode hist_correl output_folder d image1 image2 =
       Inr (if s > 49 \<and> take 3 image1 = take 3 image2
            then (d(path_join output_folder image2 := None))
                   (path_join ''duplicates'' image2 \<mapsto> bytes)
            else d)"
proof -
  from calc_Inr_files [OF assms] obtain bytes where b: "d (path_join output_folder image2) = Some bytes"
    by auto
  show ?thesis
    using assms b
    by (intro exI [of _ bytes])
      (simp add: check_similarity_def check_similarity_try_def bindE_def shutil_move_def Let_def)
qed

lemma submitted_second_later:
  "(a, b) \<in> set (submitted files checked) \<Longrightarrow>
   \<exists>pre post. files = pre @ b # post \<and> a \<in> set pre"
proof (induction files arbitrary: checked)
  case Nil
  then show ?case by simp
next
  case (Cons file1 rest)
  have later: "\<exists>pre post. file1 # rest = pre @ b # post \<and> a \<in> set pre"
    if "(a, b) \<in> set (submitted rest c)" for c
  proof -
    from Cons.IH [OF that] obtain pre post where "rest = pre @ b # post" "a \<in> set pre" by blast
    then have "file1 # rest = (file1 # pre) @ b # post \<and> a \<in> set (file1 # pre)" by simp
    then show ?thesis by blast
  qed
  show ?case
  proof (cases "file1 \<in> set checked")
    case True
    with Cons.prems show ?thesis using later by simp
  next
    case False
    with Cons.prems consider "a = file1" "b \<in> set rest"
      | "(a, b) \<in> set (submitted rest (file1 # checked))" by auto
    then show ?thesis
    proof cases
      case 1
      from 1(2) obtain r1 r2 where "rest = r1 @ b # r2" by (meson split_list)
      then have "file1 # rest = (file1 # r1) @ b # r2 \<and> a \<in> set (file1 # r1)" using 1(1) by simp
      then show ?thesis by blast
    next
      case 2
      then show ?thesis by (rule later)
    qed
  qed
qed

lemma submitted_all_pairs:
  "distinct files \<Longrightarrow> set files \<inter> set checked = {} \<Longrightarrow> i < j \<Longrightarrow> j < length files \<Longrightarrow>
   (files ! i, files ! j) \<in> set (submitted files checked)"
proof (induction files arbitrary: checked i j)
  case Nil
  then show ?case by simp
next
  case (Cons file1 rest)
  obtain j' where j: "j = Suc j'" using Cons.prems(3) by (cases j) auto
  have nc: "file1 \<notin> set checked" using Cons.prems(2) by auto
  show ?case
  proof (cases i)
    case 0
    have "rest ! j' \<in> set rest" using Cons.prems(4) j by simp
    with 0 j nc show ?thesis by auto
  next
    case (Suc i')
    have d: "distinct rest" "set rest \<inter> set (file1 # checked) = {}"
      using Cons.prems(1,2) by auto
    have "(rest ! i', rest ! j') \<in> set (submitted rest (file1 # checked))"
      using Cons.IH [OF d, of i' j'] Cons.prems(3,4) Suc j by simp
    with Suc j nc show ?thesis by simp
  qed
qed

lemma near_duplicate_present:
  assumes "near_duplicate imdecode hist_correl output_folder d image1 image2"
  shows "\<exists>bytes. d (path_join output_folder image2) = Some bytes \<and>
     relocate output_folder d image2 =
       (d(path_join output_folder image2 := None))(path_join ''duplicates'' image2 \<mapsto> bytes)"
proof -
  from assms obtain s where "calculate_histogram_similarity imdecode hist_correl d
      (path_join output_folder image1) (path_join output_folder image2) = Inr s"
    by (auto simp: near_duplicate_def split: sum.splits)
  from calc_Inr_files [OF this] obtain bytes where
    "d (path_join output_folder image2) = Some bytes" by auto
  then show ?thesis by (simp add: relocate_def)
qed

lemma check_similarity_verdict:
  "check_similarity imdecode hist_correl output_folder d image1 image2 =
     Inr (if near_duplicate imdecode hist_correl output_folder d image1 image2
          then relocate output_folder d image2 else d)"
proof (cases "calculate_histogram_similarity imdecode hist_correl d
    (path_join output_folder image1) (path_join output_folder image2)")
  case (Inl e)
  then show ?thesis
    by (simp add: check_similarity_def check_similarity_try_def bindE_def near_duplicate_def)
next
  case (Inr s)
  from check_similarity_scored [OF Inr] obtain bytes where
    b: "d (path_join output_folder image2) = Some bytes"
    and c: "check_similarity imdecode hist_correl output_folder d image1 image2 =
       Inr (if s > 49 \<and> take 3 image1 = take 3 image2
            then (d(path_join output_folder image2 := None))
                   (path_join ''duplicates'' image2 \<mapsto> bytes)
            else d)"
    by blast
  show ?thesis
    unfolding c using Inr b by (simp add: near_duplicate_def relocate_def)
qed

lemma run_tasks_foldl:
  "run_tasks imdecode hist_correl output_folder tasks d =
     Inr (foldl (\<lambda>dk (image1, image2).
                   if near_duplicate imdecode hist_correl output_folder dk image1 image2
                   then relocate output_folder dk image2 else dk) d tasks)"
proof (induction tasks arbitrary: d)
  case Nil
  show ?case by simp
next
  case (Cons t tasks)
  obtain image1 image2 where t: "t = (image1, image2)" by (cases t)
  show ?case
    unfolding t by (simp add: check_similarity_verdict bindE_def Cons.IH)
qed

lemma pool_step_compare_verdict:
  "pool_step imdecode hist_correl output_folder s (Compare image1 image2) =
     (if near_duplicate imdecode hist_correl output_folder (pool_disk s) image1 image2
      then s\<lparr>moving := (image1, image2) # moving s\<rparr> else s)"
  by (simp add: near_duplicate_def split: sum.splits)

lemma pool_step_move_relocates:
  "(image1, image2) \<in> set (moving s) \<Longrightarrow>
   pool_disk (pool_step imdecode hist_correl output_folder s (Move image1 image2))
     = relocate output_folder (pool_disk s) image2"
  by (simp add: shutil_move_def relocate_def split: option.splits)

text \<open>
  Three logos abc_1.png, abc_2.png, abc_3.png are in the folder. The pair abc_2.png,
  abc_3.png has the score 75 and equal prefixes. The phase that runs its tasks in the
  order of submission moves abc_2.png first, the task of the pair then finds abc_2.png
  gone, and abc_3.png stays in the folder. Under the schedule that compares all pairs
  before the first move, abc_3.png is moved.
\<close>

theorem near_duplicate_phase_counterexample:
  "calculate_histogram_similarity Some abc_correl abc_disk
     ''logos/abc_2.png'' ''logos/abc_3.png'' = Inr 75 \<and>
   take 3 ''abc_2.png'' = take 3 ''abc_3.png'' \<and>
   move_similar_logos Some abc_correl ''logos'' abc_files abc_disk
     = Inr (relocate ''logos'' abc_disk ''abc_2.png'') \<and>
   relocate ''logos'' abc_disk ''abc_2.png'' ''logos/abc_3.png'' = Some 3 \<and>
   relocate ''logos'' abc_disk ''abc_2.png'' ''duplicates/abc_3.png'' = None \<and>
   pool_run Some abc_correl ''logos'' abc_compare_first abc_disk ''logos/abc_3.png'' = None \<and>
   pool_run Some abc_correl ''logos'' abc_compare_first abc_disk ''duplicates/abc_3.png''
     = Some 3"
proof -
  have a: "calculate_histogram_similarity Some abc_correl abc_disk
     ''logos/abc_2.png'' ''logos/abc_3.png'' = Inr 75"
    by code_simp
  have b: "take 3 ''abc_2.png'' = take 3 ''abc_3.png''" by simp
  have c: "move_similar_logos Some abc_correl ''logos'' abc_files abc_disk
     = Inr (relocate ''logos'' abc_disk ''abc_2.png'')"
    by (simp add: move_similar_logos_def abc_files_def check_similarity_def
        check_similarity_try_def calculate_histogram_similarity_def cv2_imread_def
        shutil_move_def bindE_def relocate_def abc_disk_def abc_correl_def path_join_def)
  have d: "relocate ''logos'' abc_disk ''abc_2.png'' ''logos/abc_3.png'' = Some 3"
    by code_simp
  have e: "relocate ''logos'' abc_disk ''abc_2.png'' ''duplicates/abc_3.png'' = None"
    by code_simp
  have f: "pool_run Some abc_correl ''logos'' abc_compare_first abc_disk ''logos/abc_3.png''
      = None"
    by code_simp
  have g: "pool_run Some abc_correl ''logos'' abc_compare_first abc_disk
      ''duplicates/abc_3.png'' = Some 3"
    by code_simp
  from a b c d e f g show ?thesis by (intro conjI)
qed

text \<open>
  C1, as amended. Every task of the phase judges its pair on the files as they are when
  the task runs: \<open>check_similarity\<close> moves the second file from the folder to the
  duplicates folder exactly when the comparison then returns a score (both files are
  still in the folder and decode), the score is strictly greater than 49 and the first
  three characters of the two file names are equal; otherwise, also when a file of the
  pair is gone, it leaves the files as they are. \<open>move_similar_logos\<close> is the sequence
  of these verdicts over the submitted pairs in the order of submission; every pair of a
  listing without repetitions, first file listed before the second, is submitted; on a
  listing of two files the phase moves the second file exactly when the pair is a near
  duplicate on the files before the phase. In the pool, the comparing step marks the
  pair for moving exactly on that verdict, and the moving step of a marked pair moves
  the second file if it is still in the folder.
\<close>

theorem near_duplicate_phase:
  "check_similarity imdecode hist_correl output_folder d image1 image2 =
     Inr (if near_duplicate imdecode hist_correl output_folder d image1 image2
          then relocate output_folder d image2 else d) \<and>
   (near_duplicate imdecode hist_correl output_folder d image1 image2 \<longleftrightarrow>
      (\<exists>s. calculate_histogram_similarity imdecode hist_correl d
              (path_join output_folder image1) (path_join output_folder image2) = Inr s \<and>
           s > 49 \<and> take 3 image1 = take 3 image2)) \<and>
   (near_duplicate imdecode hist_correl output_folder d image1 image2 \<longrightarrow>
      (\<exists>bytes. d (path_join output_folder image2) = Some bytes \<and>
         relocate output_folder d image2 =
           (d(path_join output_folder image2 := None))
             (path_join ''duplicates'' image2 \<mapsto> bytes))) \<and>
   move_similar_logos imdecode hist_correl output_folder files d =
     Inr (foldl (\<lambda>dk (file1, file2).
                   if near_duplicate imdecode hist_correl output_folder dk file1 file2
                   then relocate output_folder dk file2 else dk) d (submitted files [])) \<and>
   (distinct files \<longrightarrow>
      (\<forall>i j. i < j \<and> j < length files \<longrightarrow>
         (files ! i, files ! j) \<in> set (submitted files []))) \<and>
   move_similar_logos imdecode hist_correl output_folder [image1, image2] d =
     Inr (if near_duplicate imdecode hist_correl output_folder d image1 image2
          then relocate output_folder d image2 else d) \<and>
   pool_step imdecode hist_correl output_folder s (Compare image1 image2) =
     (if near_duplicate imdecode hist_correl output_folder (pool_disk s) image1 image2
      then s\<lparr>moving := (image1, image2) # moving s\<rparr> else s) \<and>
   ((image1, image2) \<in> set (moving s) \<longrightarrow>
      pool_disk (pool_step imdecode hist_correl output_folder s (Move image1 image2))
        = relocate output_folder (pool_disk s) image2)"
proof (intro conjI impI allI)
  show "check_similarity imdecode hist_correl output_folder d image1 image2 =
     Inr (if near_duplicate imdecode hist_correl output_folder d image1 image2
          then relocate output_folder d image2 else d)"
    by (rule check_similarity_verdict)
next
  show "near_duplicate imdecode hist_correl output_folder d image1 image2 \<longleftrightarrow>
      (\<exists>s. calculate_histogram_similarity imdecode hist_correl d
              (path_join output_folder image1) (path_join output_folder image2) = Inr s \<and>
           s > 49 \<and> take 3 image1 = take 3 image2)"
    by (auto simp: near_duplicate_def split: sum.splits)
next
  assume "near_duplicate imdecode hist_correl output_folder d image1 image2"
  then show "\<exists>bytes. d (path_join output_folder image2) = Some bytes \<and>
         relocate output_folder d image2 =
           (d(path_join output_folder image2 := None))
             (path_join ''duplicates'' image2 \<mapsto> bytes)"
    by (rule near_duplicate_present)
next
  show "move_similar_logos imdecode hist_correl output_folder files d =
     Inr (foldl (\<lambda>dk (file1, file2).
                   if near_duplicate imdecode hist_correl output_folder dk file1 file2
                   then relocate output_folder dk file2 else dk) d (submitted files []))"
    unfolding move_similar_logos_def by (rule run_tasks_foldl)
next
  fix i j
  assume "distinct files" and "i < j \<and> j < length files"
  then show "(files ! i, files ! j) \<in> set (submitted files [])"
    by (intro submitted_all_pairs) simp_all
next
  show "move_similar_logos imdecode hist_correl output_folder [image1, image2] d =
     Inr (if near_duplicate imdecode hist_correl output_folder d image1 image2
          then relocate output_folder d image2 else d)"
    by (simp add: move_similar_logos_def run_tasks_foldl)
next
  show "pool_step imdecode hist_correl output_folder s (Compare image1 image2) =
     (if near_duplicate imdecode hist_correl output_folder (pool_disk s) image1 image2
      then s\<lparr>moving := (image1, image2) # moving s\<rparr> else s)"
    by (rule pool_step_compare_verdict)
next
  assume "(image1, image2) \<in> set (moving s)"
  then show "pool_disk (pool_step imdecode hist_correl output_folder s (Move image1 image2))
        = relocate output_folder (pool_disk s) image2"
    by (rule pool_step_move_relocates)
qed

text \<open>
  The phase on the listing abc_1.png, abc_2.png with the score 60 relocates abc_2.png;
  the phase on the listing abc_1.png, xyz_1.png with the score 90 relocates nothing.
\<close>

theorem near_duplicate_phase_witness:
  "calculate_histogram_similarity Some (\<lambda>a b. if b = (2 :: nat) then 0.2 else 0.8)
     [''logos/abc_1.png'' \<mapsto> 1, ''logos/abc_2.png'' \<mapsto> 2, ''logos/xyz_1.png'' \<mapsto> 3]
     ''logos/abc_1.png'' ''logos/abc_2.png'' = Inr 60 \<and>
   move_similar_logos Some (\<lambda>a b. if b = (2 :: nat) then 0.2 else 0.8) ''logos''
     [''abc_1.png'', ''abc_2.png'']
     [''logos/abc_1.png'' \<mapsto> 1, ''logos/abc_2.png'' \<mapsto> 2, ''logos/xyz_1.png'' \<mapsto> 3]
     = Inr ([''logos/abc_1.png'' \<mapsto> 1, ''logos/abc_2.png'' \<mapsto> 2, ''logos/xyz_1.png'' \<mapsto> 3]
             (''logos/abc_2.png'' := None, ''duplicates/abc_2.png'' \<mapsto> 2)) \<and>
   calculate_histogram_similarity Some (\<lambda>a b. if b = (2 :: nat) then 0.2 else 0.8)
     [''logos/abc_1.png'' \<mapsto> 1, ''logos/abc_2.png'' \<mapsto> 2, ''logos/xyz_1.png'' \<mapsto> 3]
     ''logos/abc_1.png'' ''logos/xyz_1.png'' = Inr 90 \<and>
   move_similar_logos Some (\<lambda>a b. if b = (2 :: nat) then 0.2 else 0.8) ''logos''
     [''abc_1.png'', ''xyz_1.png'']
     [''logos/abc_1.png'' \<mapsto> 1, ''logos/abc_2.png'' \<mapsto> 2, ''logos/xyz_1.png'' \<mapsto> 3]
     = Inr [''logos/abc_1.png'' \<mapsto> 1, ''logos/abc_2.png'' \<mapsto> 2, ''logos/xyz_1.png'' \<mapsto> 3] \<and>
   (''abc_1.png'', ''xyz_1.png'') \<in> set (submitted [''abc_1.png'', ''abc_2.png'', ''xyz_1.png''] [])"
proof -
  let ?hc = "\<lambda>(a :: nat) (b :: nat). if b = 2 then 0.2 else (0.8 :: real)"
  let ?d = "[''logos/abc_1.png'' \<mapsto> (1 :: nat), ''logos/abc_2.png'' \<mapsto> 2,
             ''logos/xyz_1.png'' \<mapsto> 3]"
  let ?files = "[''abc_1.png'', ''abc_2.png'', ''xyz_1.png'']"
  let ?s = "\<lparr>pool_disk = ?d, moving = []\<rparr>"
  have p: "path_join ''logos'' ''abc_1.png'' = ''logos/abc_1.png''"
    "path_join ''logos'' ''abc_2.png'' = ''logos/abc_2.png''"
    "path_join ''logos'' ''xyz_1.png'' = ''logos/xyz_1.png''"
    "path_join ''duplicates'' ''abc_2.png'' = ''duplicates/abc_2.png''"
    by (simp_all add: path_join_def)
  have s1: "calculate_histogram_similarity Some ?hc ?d ''logos/abc_1.png'' ''logos/abc_2.png''
      = Inr 60"
    by (simp add: calculate_histogram_similarity_def cv2_imread_def)
  have s2: "calculate_histogram_similarity Some ?hc ?d ''logos/abc_1.png'' ''logos/xyz_1.png''
      = Inr 90"
    by (simp add: calculate_histogram_similarity_def cv2_imread_def)
  have n1: "near_duplicate Some ?hc ''logos'' ?d ''abc_1.png'' ''abc_2.png''"
    unfolding near_duplicate_def p s1 by simp
  have n2: "\<not> near_duplicate Some ?hc ''logos'' ?d ''abc_1.png'' ''xyz_1.png''"
    unfolding near_duplicate_def p s2 by simp
  have r1: "relocate ''logos'' ?d ''abc_2.png''
      = ?d(''logos/abc_2.png'' := None, ''duplicates/abc_2.png'' \<mapsto> 2)"
    unfolding relocate_def p by simp
  note rule1 = near_duplicate_phase [of Some ?hc "''logos''" ?d "''abc_1.png''" "''abc_2.png''"
      ?files ?s]
  note rule2 = near_duplicate_phase [of Some ?hc "''logos''" ?d "''abc_1.png''" "''xyz_1.png''"
      ?files ?s]
  have m1: "move_similar_logos Some ?hc ''logos'' [''abc_1.png'', ''abc_2.png''] ?d
      = Inr (?d(''logos/abc_2.png'' := None, ''duplicates/abc_2.png'' \<mapsto> 2))"
    using rule1 n1 r1 by simp
  have m2: "move_similar_logos Some ?hc ''logos'' [''abc_1.png'', ''xyz_1.png''] ?d = Inr ?d"
    using rule2 n2 by simp
  have m3: "(''abc_1.png'', ''xyz_1.png'') \<in> set (submitted ?files [])"
    by simp
  from s1 m1 s2 m2 m3 show ?thesis by (intro conjI)
qed

subsection \<open>Failures of a comparison\<close>

lemma check_similarity_returns:
  "\<exists>d'. check_similarity imdecode hist_correl output_folder d image1 image2 = Inr d'"
  by (simp add: check_similarity_def split: sum.splits)

lemma check_similarity_skips:
  "check_similarity_try imdecode hist_correl output_folder d image1 image2 = Inl e \<Longrightarrow>
   check_similarity imdecode hist_correl output_folder d image1 image2 = Inr d"
  by (simp add: check_similarity_def)

lemma check_similarity_vanished:
  assumes "d (path_join output_folder image1) = None \<or> d (path_join output_folder image2) = None"
  shows "check_similarity_try imdecode hist_correl output_folder d image1 image2
     = Inl FileNotFoundError"
  using assms
    calc_vanished [of d "path_join output_folder image1" "path_join output_folder image2"
      imdecode hist_correl]
  by (simp add: check_similarity_try_def bindE_def Let_def)

lemma run_tasks_returns:
  "\<exists>d'. run_tasks imdecode hist_correl output_folder tasks d = Inr d'"
proof (induction tasks arbitrary: d)
  case Nil
  show ?case by simp
next
  case (Cons t tasks)
  obtain image1 image2 where t: "t = (image1, image2)" by (cases t)
  obtain d1 where "check_similarity imdecode hist_correl output_folder d image1 image2 = Inr d1"
    using check_similarity_returns by blast
  with Cons.IH [of d1] t show ?case by (simp add: bindE_def)
qed

lemma pool_step_compare_disk:
  "pool_disk (pool_step imdecode hist_correl output_folder s (Compare image1 image2)) = pool_disk s"
  by (simp split: sum.splits)

lemma pool_step_move_vanished:
  "pool_disk s (path_join output_folder image2) = None \<Longrightarrow>
   pool_disk (pool_step imdecode hist_correl output_folder s (Move image1 image2)) = pool_disk s"
  by (simp add: shutil_move_def)

text \<open>
  C9. \<open>check_similarity\<close> never raises. Whatever its \<open>try\<close> block raises, it returns
  with the files as they were: the pair is skipped. A file of the pair that is no longer
  in the folder is such a case. \<open>move_similar_logos\<close> returns for every listing and every
  content of the disk. With other tasks in between, the comparing step never changes the
  files, and the moving step of a task whose second file has vanished since leaves the
  files as they are.
\<close>

theorem comparison_failures_skipped:
  "(\<exists>d'. check_similarity imdecode hist_correl output_folder d image1 image2 = Inr d') \<and>
   (\<forall>e. check_similarity_try imdecode hist_correl output_folder d image1 image2 = Inl e \<longrightarrow>
        check_similarity imdecode hist_correl output_folder d image1 image2 = Inr d) \<and>
   (d (path_join output_folder image1) = None \<or> d (path_join output_folder image2) = None \<longrightarrow>
      check_similarity imdecode hist_correl output_folder d image1 image2 = Inr d) \<and>
   (\<exists>d'. move_similar_logos imdecode hist_correl output_folder files d = Inr d') \<and>
   pool_disk (pool_step imdecode hist_correl output_folder s (Compare image1 image2))
     = pool_disk s \<and>
   (pool_disk s (path_join output_folder image2) = None \<longrightarrow>
      pool_disk (pool_step imdecode hist_correl output_folder s (Move image1 image2))
        = pool_disk s)"
proof (intro conjI allI impI)
  show "\<exists>d'. check_similarity imdecode hist_correl output_folder d image1 image2 = Inr d'"
    by (rule check_similarity_returns)
next
  fix e
  assume "check_similarity_try imdecode hist_correl output_folder d image1 image2 = Inl e"
  then show "check_similarity imdecode hist_correl output_folder d image1 image2 = Inr d"
    by (rule check_similarity_skips)
next
  assume "d (path_join output_folder image1) = None \<or> d (path_join output_folder image2) = None"
  then have "check_similarity_try imdecode hist_correl output_folder d image1 image2
      = Inl FileNotFoundError"
    by (rule check_similarity_vanished)
  then show "check_similarity imdecode hist_correl output_folder d image1 image2 = Inr d"
    by (rule check_similarity_skips)
next
  show "\<exists>d'. move_similar_logos imdecode hist_correl output_folder files d = Inr d'"
    unfolding move_similar_logos_def by (rule run_tasks_returns)
next
  show "pool_disk (pool_step imdecode hist_correl output_folder s (Compare image1 image2))
     = pool_disk s"
    by (rule pool_step_compare_disk)
next
  assume "pool_disk s (path_join output_folder image2) = None"
  then show "pool_disk (pool_step imdecode hist_correl output_folder s (Move image1 image2))
        = pool_disk s"
    by (rule pool_step_move_vanished)
qed

text \<open>
  The file abc_2.png is listed but no longer in the folder: its pair is skipped and
  the phase returns with the files as they were.
\<close>

theorem comparison_failures_skipped_witness:
  "check_similarity Some (\<lambda>a b. 1) ''logos'' [''logos/abc_1.png'' \<mapsto> (1 :: nat)]
     ''abc_1.png'' ''abc_2.png'' = Inr [''logos/abc_1.png'' \<mapsto> 1] \<and>
   move_similar_logos Some (\<lambda>a b. 1) ''logos'' [''abc_1.png'', ''abc_2.png'']
     [''logos/abc_1.png'' \<mapsto> (1 :: nat)] = Inr [''logos/abc_1.png'' \<mapsto> 1]"
proof -
  let ?d = "[''logos/abc_1.png'' \<mapsto> (1 :: nat)]"
  let ?s = "\<lparr>pool_disk = ?d, moving = []\<rparr>"
  have v: "?d (path_join ''logos'' ''abc_1.png'') = None \<or>
      ?d (path_join ''logos'' ''abc_2.png'') = None"
    by (simp add: path_join_def)
  have c: "check_similarity Some (\<lambda>a b. 1) ''logos'' ?d ''abc_1.png'' ''abc_2.png'' = Inr ?d"
    using comparison_failures_skipped
      [of Some "\<lambda>a b. 1" "''logos''" ?d "''abc_1.png''" "''abc_2.png''"
        "[''abc_1.png'', ''abc_2.png'']" ?s] v
    by blast
  then have "move_similar_logos Some (\<lambda>a b. 1) ''logos'' [''abc_1.png'', ''abc_2.png''] ?d
      = Inr ?d"
    by (simp add: move_similar_logos_def bindE_def)
  with c show ?thesis by simp
qed

subsection \<open>The first file of a prefix group\<close>

lemma path_join_plain:
  "CHR ''/'' \<notin> set b \<Longrightarrow>
   path_join a b = (if a = [] \<or> last a = CHR ''/'' then a else a @ ''/'') @ b"
  by (cases b) (auto simp: path_join_def)

lemma path_join_inj:
  "CHR ''/'' \<notin> set b \<Longrightarrow> CHR ''/'' \<notin> set c \<Longrightarrow> path_join a b = path_join a c \<Longrightarrow> b = c"
  by (simp add: path_join_plain)

lemma pool_step_inv:
  assumes inv: "pool_inv output_folder T d0 s" and t: "task_of e \<in> T"
  shows "pool_inv output_folder T d0 (pool_step imdecode hist_correl output_folder s e)"
proof (cases e)
  case (Compare image1 image2)
  with t have "(image1, image2) \<in> T" by simp
  with inv show ?thesis
    unfolding Compare by (auto simp: pool_inv_def split: sum.splits)
next
  case (Move image1 image2)
  with t have mem: "(image1, image2) \<in> T" by simp
  show ?thesis
  proof (cases "(image1, image2) \<in> set (moving s)")
    case False
    with inv show ?thesis unfolding Move by simp
  next
    case True
    with inv have pre: "take 3 image1 = take 3 image2"
      unfolding pool_inv_def by fastforce
    have rest: "\<forall>t \<in> set (remove1 (image1, image2) (moving s)).
        t \<in> T \<and> take 3 (fst t) = take 3 (snd t)"
      using inv unfolding pool_inv_def by (meson notin_set_remove1)
    show ?thesis
    proof (cases "pool_disk s (path_join output_folder image2)")
      case None
      with True inv rest show ?thesis
        unfolding Move by (simp add: shutil_move_def pool_inv_def)
    next
      case (Some bytes)
      let ?src = "path_join output_folder image2"
      let ?d = "((pool_disk s)(?src := None))(path_join ''duplicates'' image2 \<mapsto> bytes)"
      have step: "pool_step imdecode hist_correl output_folder s (Move image1 image2)
          = s\<lparr>pool_disk := ?d, moving := remove1 (image1, image2) (moving s)\<rparr>"
        using True Some by (simp add: shutil_move_def)
      have missing: "\<exists>t \<in> T. take 3 (fst t) = take 3 (snd t) \<and> p = path_join output_folder (snd t)"
        if "d0 p \<noteq> None" "?d p = None" for p
      proof (cases "p = ?src")
        case True
        with mem pre show ?thesis by force
      next
        case False
        with that(2) have "pool_disk s p = None" by (simp split: if_splits)
        with that(1) inv show ?thesis unfolding pool_inv_def by blast
      qed
      show ?thesis
        unfolding Move step using rest missing by (simp add: pool_inv_def)
    qed
  qed
qed

lemma pool_fold_inv:
  "pool_inv output_folder T d0 s \<Longrightarrow> \<forall>e \<in> set events. task_of e \<in> T \<Longrightarrow>
   pool_inv output_folder T d0 (foldl (pool_step imdecode hist_correl output_folder) s events)"
proof (induction events arbitrary: s)
  case Nil
  then show ?case by simp
next
  case (Cons e events)
  have "pool_inv output_folder T d0 (pool_step imdecode hist_correl output_folder s e)"
    using Cons.prems by (intro pool_step_inv) simp_all
  from Cons.IH [OF this] Cons.prems(2) show ?case by simp
qed

lemma pool_run_missing:
  assumes sched: "\<forall>e \<in> set events. task_of e \<in> T"
    and "d p \<noteq> None" and "pool_run imdecode hist_correl output_folder events d p = None"
  shows "\<exists>t \<in> T. take 3 (fst t) = take 3 (snd t) \<and> p = path_join output_folder (snd t)"
proof -
  have "pool_inv output_folder T d \<lparr>pool_disk = d, moving = []\<rparr>"
    by (auto simp: pool_inv_def)
  from pool_fold_inv [OF this sched, of imdecode hist_correl] assms(2,3)
  show ?thesis unfolding pool_inv_def pool_run_def by blast
qed

lemma pool_two_steps:
  "\<exists>d'. check_similarity imdecode hist_correl output_folder d image1 image2 = Inr d' \<and>
     pool_step imdecode hist_correl output_folder
       (pool_step imdecode hist_correl output_folder \<lparr>pool_disk = d, moving = []\<rparr>
          (Compare image1 image2))
       (Move image1 image2) = \<lparr>pool_disk = d', moving = []\<rparr>"
proof (cases "calculate_histogram_similarity imdecode hist_correl d
    (path_join output_folder image1) (path_join output_folder image2)")
  case (Inl e)
  then show ?thesis
    by (simp add: check_similarity_def check_similarity_try_def bindE_def Let_def)
next
  case (Inr s)
  from calc_Inr_files [OF Inr] obtain bytes where
    "d (path_join output_folder image2) = Some bytes" by auto
  with Inr show ?thesis
    by (simp add: check_similarity_def check_similarity_try_def bindE_def Let_def shutil_move_def)
qed

lemma run_tasks_sequential:
  "\<exists>d'. run_tasks imdecode hist_correl output_folder tasks d = Inr d' \<and>
     foldl (pool_step imdecode hist_correl output_folder) \<lparr>pool_disk = d, moving = []\<rparr>
       (sequential tasks) = \<lparr>pool_disk = d', moving = []\<rparr>"
proof (induction tasks arbitrary: d)
  case Nil
  show ?case by (simp add: sequential_def)
next
  case (Cons t tasks)
  obtain image1 image2 where t: "t = (image1, image2)" by (cases t)
  from pool_two_steps [of imdecode hist_correl output_folder d image1 image2]
  obtain d1 where
    c: "check_similarity imdecode hist_correl output_folder d image1 image2 = Inr d1"
    and p: "pool_step imdecode hist_correl output_folder
       (pool_step imdecode hist_correl output_folder \<lparr>pool_disk = d, moving = []\<rparr>
          (Compare image1 image2))
       (Move image1 image2) = \<lparr>pool_disk = d1, moving = []\<rparr>"
    by blast
  from Cons.IH [of d1] obtain d' where
    r: "run_tasks imdecode hist_correl output_folder tasks d1 = Inr d'"
    and f: "foldl (pool_step imdecode hist_correl output_folder) \<lparr>pool_disk = d1, moving = []\<rparr>
       (sequential tasks) = \<lparr>pool_disk = d', moving = []\<rparr>"
    by blast
  have "sequential (t # tasks) = Compare image1 image2 # Move image1 image2 # sequential tasks"
    using t by (simp add: sequential_def)
  then have "foldl (pool_step imdecode hist_correl output_folder) \<lparr>pool_disk = d, moving = []\<rparr>
       (sequential (t # tasks)) = \<lparr>pool_disk = d', moving = []\<rparr>"
    using p f by simp
  moreover have "run_tasks imdecode hist_correl output_folder (t # tasks) d = Inr d'"
    using t c r by (simp add: bindE_def)
  ultimately show ?case by blast
qed

lemma sequential_tasks: "task_of ` set (sequential tasks) \<subseteq> set tasks"
  by (induction tasks) (auto simp: sequential_def)

lemma move_similar_logos_sequential:
  "move_similar_logos imdecode hist_correl output_folder files d
     = Inr (pool_run imdecode hist_correl output_folder (sequential (submitted files [])) d)"
  using run_tasks_sequential [of imdecode hist_correl output_folder "submitted files []" d]
  by (auto simp: move_similar_logos_def pool_run_def)

lemma moved_has_earlier:
  assumes names: "\<forall>g \<in> set files. CHR ''/'' \<notin> set g"
    and sched: "\<forall>e \<in> set events. task_of e \<in> set (submitted files [])"
    and g: "g \<in> set files"
    and before: "d (path_join output_folder g) \<noteq> None"
    and after: "pool_run imdecode hist_correl output_folder events d (path_join output_folder g) = None"
  shows "\<exists>pre post e. files = pre @ g # post \<and> e \<in> set pre \<and> take 3 e = take 3 g"
proof -
  from pool_run_missing [OF sched before after] obtain a b where
    t: "(a, b) \<in> set (submitted files [])" "take 3 a = take 3 b"
      "path_join output_folder g = path_join output_folder b"
    by auto
  from submitted_second_later [OF t(1)] obtain pre post where
    l: "files = pre @ b # post" "a \<in> set pre" by blast
  then have "b \<in> set files" by simp
  with names g t(3) have "g = b" by (intro path_join_inj [of g b output_folder]) auto
  with l t(2) show ?thesis by blast
qed

lemma first_stays:
  assumes names: "\<forall>g \<in> set files. CHR ''/'' \<notin> set g"
    and sched: "\<forall>e \<in> set events. task_of e \<in> set (submitted files [])"
    and f: "f \<in> set files"
    and before: "d (path_join output_folder f) \<noteq> None"
    and first: "\<forall>pre post. files = pre @ f # post \<longrightarrow> (\<forall>e \<in> set pre. take 3 e \<noteq> take 3 f)"
  shows "pool_run imdecode hist_correl output_folder events d (path_join output_folder f) \<noteq> None"
proof
  assume "pool_run imdecode hist_correl output_folder events d (path_join output_folder f) = None"
  from moved_has_earlier [OF names sched f before this] obtain pre post e where
    "files = pre @ f # post" "e \<in> set pre" "take 3 e = take 3 f" by blast
  with first show False by blast
qed

text \<open>
  C10. The listing holds file names (no name contains a slash), and the schedule of the
  pool is any sequence of comparing and moving steps of submitted pairs. A listed file
  that is in the folder before the phase and not after it has a file listed before it
  with the same first three characters. Hence a listed file of the folder that no file
  listed before it shares its first three characters with, the earliest of its prefix
  group, is still in the folder after the phase, under every schedule and in particular
  when \<open>move_similar_logos\<close> runs its tasks one after the other.
\<close>

theorem first_of_prefix_group_stays:
  assumes "\<forall>g \<in> set files. CHR ''/'' \<notin> set g"
    and "\<forall>e \<in> set events. task_of e \<in> set (submitted files [])"
  shows
    "(\<forall>g \<in> set files.
        d (path_join output_folder g) \<noteq> None \<and>
        pool_run imdecode hist_correl output_folder events d (path_join output_folder g) = None
        \<longrightarrow> (\<exists>pre post e. files = pre @ g # post \<and> e \<in> set pre \<and> take 3 e = take 3 g)) \<and>
     (\<forall>f \<in> set files.
        d (path_join output_folder f) \<noteq> None \<and>
        (\<forall>pre post. files = pre @ f # post \<longrightarrow> (\<forall>e \<in> set pre. take 3 e \<noteq> take 3 f))
        \<longrightarrow> pool_run imdecode hist_correl output_folder events d (path_join output_folder f)
              \<noteq> None) \<and>
     (\<exists>d'. move_similar_logos imdecode hist_correl output_folder files d = Inr d' \<and>
        (\<forall>f \<in> set files.
           d (path_join output_folder f) \<noteq> None \<and>
           (\<forall>pre post. files = pre @ f # post \<longrightarrow> (\<forall>e \<in> set pre. take 3 e \<noteq> take 3 f))
           \<longrightarrow> d' (path_join output_folder f) \<noteq> None))"
proof (intro conjI)
  show "\<forall>g \<in> set files.
        d (path_join output_folder g) \<noteq> None \<and>
        pool_run imdecode hist_correl output_folder events d (path_join output_folder g) = None
        \<longrightarrow> (\<exists>pre post e. files = pre @ g # post \<and> e \<in> set pre \<and> take 3 e = take 3 g)"
    by (intro ballI impI, elim conjE, rule moved_has_earlier [OF assms])
next
  show "\<forall>f \<in> set files.
        d (path_join output_folder f) \<noteq> None \<and>
        (\<forall>pre post. files = pre @ f # post \<longrightarrow> (\<forall>e \<in> set pre. take 3 e \<noteq> take 3 f))
        \<longrightarrow> pool_run imdecode hist_correl output_folder events d (path_join output_folder f)
              \<noteq> None"
    by (intro ballI impI, elim conjE, rule first_stays [OF assms])
next
  let ?seq = "sequential (submitted files [])"
  have s: "\<forall>e \<in> set ?seq. task_of e \<in> set (submitted files [])"
    using sequential_tasks [of "submitted files []"] by (simp add: image_subset_iff)
  have k: "\<forall>f \<in> set files.
           d (path_join output_folder f) \<noteq> None \<and>
           (\<forall>pre post. files = pre @ f # post \<longrightarrow> (\<forall>e \<in> set pre. take 3 e \<noteq> take 3 f))
           \<longrightarrow> pool_run imdecode hist_correl output_folder ?seq d (path_join output_folder f)
                 \<noteq> None"
    by (intro ballI impI, elim conjE, rule first_stays [OF assms(1) s])
  show "\<exists>d'. move_similar_logos imdecode hist_correl output_folder files d = Inr d' \<and>
        (\<forall>f \<in> set files.
           d (path_join output_folder f) \<noteq> None \<and>
           (\<forall>pre post. files = pre @ f # post \<longrightarrow> (\<forall>e \<in> set pre. take 3 e \<noteq> take 3 f))
           \<longrightarrow> d' (path_join output_folder f) \<noteq> None)"
    using move_similar_logos_sequential [of imdecode hist_correl output_folder files d] k
    by (intro exI [of _ "pool_run imdecode hist_correl output_folder ?seq d"] conjI)
qed

text \<open>
  Three files, every pair with the score 100. All three comparisons run before the
  first move. The file abc_2.png is moved; abc_1.png and xyz_1.png, the first of their
  prefix groups, stay.
\<close>

theorem first_of_prefix_group_stays_witness:
  "pool_run Some (\<lambda>a b. 1) ''logos''
     [Compare ''abc_1.png'' ''abc_2.png'', Compare ''abc_1.png'' ''xyz_1.png'',
      Compare ''abc_2.png'' ''xyz_1.png'', Move ''abc_1.png'' ''abc_2.png'',
      Move ''abc_1.png'' ''xyz_1.png'', Move ''abc_2.png'' ''xyz_1.png'']
     [''logos/abc_1.png'' \<mapsto> (1 :: nat), ''logos/abc_2.png'' \<mapsto> 2, ''logos/xyz_1.png'' \<mapsto> 3]
     ''logos/abc_1.png'' \<noteq> None \<and>
   pool_run Some (\<lambda>a b. 1) ''logos''
     [Compare ''abc_1.png'' ''abc_2.png'', Compare ''abc_1.png'' ''xyz_1.png'',
      Compare ''abc_2.png'' ''xyz_1.png'', Move ''abc_1.png'' ''abc_2.png'',
      Move ''abc_1.png'' ''xyz_1.png'', Move ''abc_2.png'' ''xyz_1.png'']
     [''logos/abc_1.png'' \<mapsto> (1 :: nat), ''logos/abc_2.png'' \<mapsto> 2, ''logos/xyz_1.png'' \<mapsto> 3]
     ''logos/abc_2.png'' = None"
proof -
  let ?files = "[''abc_1.png'', ''abc_2.png'', ''xyz_1.png'']"
  let ?events = "[Compare ''abc_1.png'' ''abc_2.png'', Compare ''abc_1.png'' ''xyz_1.png'',
      Compare ''abc_2.png'' ''xyz_1.png'', Move ''abc_1.png'' ''abc_2.png'',
      Move ''abc_1.png'' ''xyz_1.png'', Move ''abc_2.png'' ''xyz_1.png'']"
  let ?d = "[''logos/abc_1.png'' \<mapsto> (1 :: nat), ''logos/abc_2.png'' \<mapsto> 2,
             ''logos/xyz_1.png'' \<mapsto> 3]"
  have names: "\<forall>g \<in> set ?files. CHR ''/'' \<notin> set g" by simp
  have sched: "\<forall>e \<in> set ?events. task_of e \<in> set (submitted ?files [])" by simp
  have mem: "''abc_1.png'' \<in> set ?files" by simp
  have before: "?d (path_join ''logos'' ''abc_1.png'') \<noteq> None"
    by (simp add: path_join_def)
  have first: "\<forall>pre post. ?files = pre @ ''abc_1.png'' # post \<longrightarrow>
      (\<forall>e \<in> set pre. take 3 e \<noteq> take 3 ''abc_1.png'')"
    by (auto simp: Cons_eq_append_conv)
  note main = first_of_prefix_group_stays [OF names sched,
      where d = ?d and output_folder = "''logos''" and imdecode = Some
        and hist_correl = "\<lambda>a b. 1", THEN conjunct2, THEN conjunct1]
  have "pool_run Some (\<lambda>a b. 1) ''logos'' ?events ?d (path_join ''logos'' ''abc_1.png'') \<noteq> None"
    by (rule main [THEN bspec, OF mem, THEN mp]) (intro conjI before first)
  then have a: "pool_run Some (\<lambda>a b. 1) ''logos'' ?events ?d ''logos/abc_1.png'' \<noteq> None"
    by (simp add: path_join_def)
  have b: "pool_run Some (\<lambda>a b. 1) ''logos'' ?events ?d ''logos/abc_2.png'' = None"
    by (simp add: pool_run_def calculate_histogram_similarity_def cv2_imread_def
        shutil_move_def path_join_def)
  from a b show ?thesis by (intro conjI)
qed

section \<open>Results on the histogram correlation\<close>

lemma sum_list_positive:
  "\<forall>y \<in> set l. 0 \<le> f y \<Longrightarrow> x \<in> set l \<Longrightarrow> 0 < f x \<Longrightarrow> 0 < sum_list (map f l :: real list)"
proof (induction l)
  case Nil
  then show ?case by simp
next
  case (Cons a l)
  have rest: "0 \<le> sum_list (map f l)"
    using Cons.prems(1) by (intro sum_list_nonneg) auto
  show ?case
  proof (cases "x = a")
    case True
    with Cons.prems(3) rest show ?thesis by simp
  next
    case False
    with Cons.prems have "0 < sum_list (map f l)" by (intro Cons.IH) auto
    moreover have "0 \<le> f a" using Cons.prems(1) by simp
    ultimately show ?thesis by simp
  qed
qed

lemma pearson_self:
  assumes "x \<in> set h" and "y \<in> set h" and "x \<noteq> y"
  shows "pearson h h = 1"
proof -
  let ?S = "sum_list (map (\<lambda>x. (x - mean h)\<^sup>2) h)"
  have num: "sum_list (map2 (\<lambda>x y. (x - mean h) * (y - mean h)) h h) = ?S"
    by (simp add: zip_same_conv_map power2_eq_square comp_def)
  obtain z where z: "z \<in> set h" "z \<noteq> mean h"
    using assms by (cases "x = mean h") auto
  have "0 < ?S"
    using z by (intro sum_list_positive [of h _ z]) auto
  then show ?thesis
    unfolding pearson_def num by simp
qed

lemma minmax_normalize_varies:
  assumes "x \<in> set h" and "y \<in> set h" and "x \<noteq> y"
  shows "\<exists>u \<in> set (minmax_normalize h). \<exists>v \<in> set (minmax_normalize h). u \<noteq> v"
proof -
  let ?f = "\<lambda>x. (x - Min (set h)) * 255 / (Max (set h) - Min (set h))"
  have "Min (set h) \<le> x" "x \<le> Max (set h)" "Min (set h) \<le> y" "y \<le> Max (set h)"
    using assms(1,2) by simp_all
  with assms(3) have "Max (set h) - Min (set h) \<noteq> 0" by linarith
  with assms(3) have "?f x \<noteq> ?f y" by simp
  moreover have "?f x \<in> set (minmax_normalize h)"
    unfolding minmax_normalize_def set_map using assms(1) by (rule imageI)
  moreover have "?f y \<in> set (minmax_normalize h)"
    unfolding minmax_normalize_def set_map using assms(2) by (rule imageI)
  ultimately show ?thesis by blast
qed

text \<open>
  C7. An image that is in the folder and decodes, and whose histogram is not constant
  (it has two bins of different counts), compared with itself: the normalised histogram
  has the Pearson correlation 1 with itself, and \<open>calculate_histogram_similarity\<close>
  returns the score 100. The arithmetic is that of the real numbers, where the score is
  exactly 100; the rounding of the floating-point computation is not modelled.
\<close>

theorem self_similarity:
  assumes "d path = Some bytes" and "imdecode bytes = Some m"
    and "x \<in> set (calc_hist m)" and "y \<in> set (calc_hist m)" and "x \<noteq> y"
  shows "spec_hist_correl calc_hist m m = 1 \<and>
     calculate_histogram_similarity imdecode (spec_hist_correl calc_hist) d path path = Inr 100"
proof -
  from minmax_normalize_varies [OF assms(3,4,5)] obtain u v where
    "u \<in> set (minmax_normalize (calc_hist m))" "v \<in> set (minmax_normalize (calc_hist m))"
    "u \<noteq> v"
    by blast
  then have one: "spec_hist_correl calc_hist m m = 1"
    unfolding spec_hist_correl_def by (rule pearson_self)
  have r: "cv2_imread imdecode d path = Some m"
    using assms(1,2) by (simp add: cv2_imread_def)
  have "calculate_histogram_similarity imdecode (spec_hist_correl calc_hist) d path path
      = Inr 100"
    using r r one by (rule similarity_of_correlation_one)
  with one show ?thesis by simp
qed

text \<open>An image with the histogram 0, 3, 1, compared with itself.\<close>

theorem self_similarity_witness:
  "calculate_histogram_similarity Some (spec_hist_correl (\<lambda>m. [0, 3, 1]))
     [''logos/a.png'' \<mapsto> (1 :: nat)] ''logos/a.png'' ''logos/a.png'' = Inr 100"
proof -
  have a: "[''logos/a.png'' \<mapsto> (1 :: nat)] ''logos/a.png'' = Some 1" by simp
  have b: "Some (1 :: nat) = Some 1" by simp
  have c: "(0 :: real) \<in> set ((\<lambda>m :: nat. [0, 3, 1]) 1)"
    "(3 :: real) \<in> set ((\<lambda>m :: nat. [0, 3, 1]) 1)" "(0 :: real) \<noteq> 3"
    by simp_all
  from self_similarity [where imdecode = Some and calc_hist = "\<lambda>m :: nat. [0, 3, 1]"
      and d = "[''logos/a.png'' \<mapsto> (1 :: nat)]" and path = "''logos/a.png''"
      and bytes = 1 and m = 1 and x = 0 and y = 3, OF a b c]
  show ?thesis by simp
qed

end
